theory Spec2Isabelle
  imports Main "HOL-Library.Sublist"
begin

section \<open>Shell state of myshell.c\<close>

text \<open>
  The globals of \<^verbatim>\<open>myshell.c\<close>: the prompt name, the prompt terminator, the array
  \<^verbatim>\<open>aliases[MAX_ALIASES]\<close> and the counter \<^verbatim>\<open>alias_count\<close>. The array is a list
  of \<^verbatim>\<open>MAX_ALIASES\<close> slots; only the slots below \<^verbatim>\<open>alias_count\<close> are live. The
  counter is an \<^verbatim>\<open>int\<close> in the source that is only incremented below
  \<^verbatim>\<open>MAX_ALIASES\<close> and only decremented after a live slot was found, so it is a
  natural number here. C strings are \<^typ>\<open>string\<close>; \<^verbatim>\<open>strcmp(a, b) == 0\<close> is
  equality.
\<close>

definition MAX_ALIASES :: nat where
  "MAX_ALIASES = 10"

record Alias =
  new_name :: string
  old_name :: string

record shell =
  shellname :: string
  terminator :: string
  aliases :: "Alias list"
  alias_count :: nat

definition init_shell :: shell where
  "init_shell = \<lparr>shellname = ''myshell'', terminator = ''>'',
     aliases = replicate MAX_ALIASES \<lparr>new_name = [], old_name = []\<rparr>, alias_count = 0\<rparr>"

text \<open>The live part of the array, in slot order: the alias table.\<close>

definition table :: "shell \<Rightarrow> Alias list" where
  "table s = take (alias_count s) (aliases s)"

text \<open>The array has its declared size and the counter stays within it.\<close>

definition shell_ok :: "shell \<Rightarrow> bool" where
  "shell_ok s = (length (aliases s) = MAX_ALIASES \<and> alias_count s \<le> MAX_ALIASES)"

section \<open>The environment\<close>

text \<open>
  What the program touches outside its globals. \<open>out\<close> is standard output: the bytes
  in the order in which they reach it, a byte the interpreter prints counting from the
  moment it is printed, whenever the stdio buffer hands it on. \<open>err\<close> is the
  error stream: a \<open>Msg\<close> for each \<^verbatim>\<open>fprintf(stderr, ...)\<close>, a \<open>Perror\<close> for each
  \<^verbatim>\<open>perror(prefix)\<close> (the text of the OS reason is not modelled). \<open>files\<close> maps the
  path given to \<^verbatim>\<open>fopen\<close> to the file's bytes; opening for reading fails on a path
  with no file, opening for writing fails on the paths of \<open>wr_denied\<close> (how a
  relative path depends on the working directory is not modelled). \<open>chdir_to\<close> gives,
  for the working directory and the argument of \<^verbatim>\<open>chdir\<close>, the directory the call
  leads to, \<open>None\<close> when it fails. \<open>heap\<close> lists the outcomes of the coming
  checked allocations (\<^verbatim>\<open>malloc\<close>, \<^verbatim>\<open>realloc\<close>), \<open>True\<close> for success; past its
  end every allocation succeeds. \<^verbatim>\<open>strdup\<close>, whose result the source never checks,
  is taken to succeed. \<open>spawn\<close> says what \<^verbatim>\<open>fork\<close> and the child do for a command.
\<close>

datatype diag = Msg string | Perror string

datatype wstatus = WExited nat | WSignaled nat | WStopped nat

text \<open>
  \<open>ForkFails\<close>: \<^verbatim>\<open>fork\<close> returns a negative pid. \<open>ExecFails k\<close>: the child is created
  while the last \<open>k\<close> bytes the interpreter printed are still in the stdio buffer, which
  the child inherits, and the child's \<^verbatim>\<open>execvp\<close> returns -1. \<open>Runs sts\<close>: the child runs the program, and the
  parent's successive \<^verbatim>\<open>waitpid(pid, &status, WUNTRACED)\<close> calls report \<open>sts\<close> in
  order; after the last of them the child changes state no more, so a further
  \<^verbatim>\<open>waitpid\<close> never returns.
\<close>

datatype proc = ForkFails | ExecFails nat | Runs "wstatus list"

record world =
  out :: string
  err :: "diag list"
  files :: "string \<rightharpoonup> string"
  wr_denied :: "string \<Rightarrow> bool"
  chdir_to :: "string \<Rightarrow> string \<Rightarrow> string option"
  cwd :: string
  heap :: "bool list"
  spawn :: "string list \<Rightarrow> proc"

text \<open>
  How a call can fail to return to its caller: the process exits with a status, it
  waits for ever on a child, or \<^verbatim>\<open>fscanf\<close> writes past a 256-byte buffer (undefined
  behaviour, after which the model says nothing).
\<close>

datatype halt = Exit int world | Blocked world | Overrun world

type_synonym ret = "halt + (int \<times> shell \<times> world)"

type_synonym builtin = "string list \<Rightarrow> shell \<Rightarrow> world \<Rightarrow> ret"

definition EXIT_SUCCESS :: int where
  "EXIT_SUCCESS = 0"

definition EXIT_FAILURE :: int where
  "EXIT_FAILURE = 1"

definition nl :: string where
  "nl = [CHR 0x0A]"

definition dquote :: string where
  "dquote = [CHR 0x22]"

definition printf :: "string \<Rightarrow> world \<Rightarrow> world" where
  "printf m w = w\<lparr>out := out w @ m\<rparr>"

definition eprintf :: "string \<Rightarrow> world \<Rightarrow> world" where
  "eprintf m w = w\<lparr>err := err w @ [Msg m]\<rparr>"

definition perror :: "string \<Rightarrow> world \<Rightarrow> world" where
  "perror p w = w\<lparr>err := err w @ [Perror p]\<rparr>"

text \<open>
  \<^verbatim>\<open>args\<close> is a NULL-terminated array: \<^verbatim>\<open>args[i]\<close> is the i-th string, and NULL
  (\<open>None\<close>) at the index of the terminator. The source never reads past it.
\<close>

definition arg :: "string list \<Rightarrow> nat \<Rightarrow> string option" where
  "arg args i = (if i < length args then Some (args ! i) else None)"

text \<open>A C string ends at its first NUL byte.\<close>

definition c_str :: "string \<Rightarrow> string" where
  "c_str bs = takeWhile (\<lambda>c. c \<noteq> CHR 0x00) bs"

text \<open>One checked allocation: \<open>None\<close> when it fails.\<close>

definition alloc :: "world \<Rightarrow> world option" where
  "alloc w = (case heap w of [] \<Rightarrow> Some w
     | ok # h \<Rightarrow> if ok then Some (w\<lparr>heap := h\<rparr>) else None)"

definition alloc_error :: "world \<Rightarrow> halt" where
  "alloc_error w = Exit EXIT_FAILURE (eprintf (''lsh: allocation error'' @ nl) (w\<lparr>heap := tl (heap w)\<rparr>))"

section \<open>Builtins\<close>

definition lsh_cd :: builtin where
  "lsh_cd args s w =
     (case arg args 1 of
        None \<Rightarrow> Inr (1, s, eprintf (''lsh: expected argument to '' @ dquote @ ''cd'' @ dquote @ nl) w)
      | Some d \<Rightarrow>
          (case chdir_to w (cwd w) d of
             Some dir \<Rightarrow> Inr (1, s, w\<lparr>cwd := dir\<rparr>)
           | None \<Rightarrow> Inr (1, s, perror ''lsh'' w)))"

definition help_text :: string where
  "help_text =
     ''myshell - Available commands:'' @ nl @
     ''HELP: Show this help message.'' @ nl @
     ''STOP: Terminate the shell session.'' @ nl @
     ''SETSHELLNAME <name>: Set the shell prompt name.'' @ nl @
     ''SETTERMINATOR <terminator>: Set the prompt terminator.'' @ nl @
     ''NEWNAME <new_name> <old_name>: Create an alias for a command.'' @ nl @
     ''LISTNEWNAMES: List all aliases.'' @ nl @
     ''SAVENEWNAMES <file_name>: Save aliases to a file.'' @ nl @
     ''READNEWNAMES <file_name>: Read aliases from a file.'' @ nl @
     ''<UNIX_command>: Execute any valid UNIX command.'' @ nl"

definition lsh_help :: builtin where
  "lsh_help args s w = Inr (1, s, printf help_text w)"

definition lsh_exit :: builtin where
  "lsh_exit args s w = Inr (0, s, w)"

definition lsh_stop :: builtin where
  "lsh_stop args s w = Inr (0, s, w)"

definition setshellname :: builtin where
  "setshellname args s w =
     (case arg args 1 of
        None \<Rightarrow> Inr (1, s\<lparr>shellname := ''myshell''\<rparr>, w)
      | Some a1 \<Rightarrow> Inr (1, s\<lparr>shellname := a1\<rparr>, w))"

definition setterminator :: builtin where
  "setterminator args s w =
     (case arg args 1 of
        None \<Rightarrow> Inr (1, s\<lparr>terminator := ''>''\<rparr>, w)
      | Some a1 \<Rightarrow> Inr (1, s\<lparr>terminator := a1\<rparr>, w))"

subsection \<open>newname\<close>

text \<open>
  \<^verbatim>\<open>for (int j = i; j < alias_count - 1; j++) aliases[j] = aliases[j + 1];\<close>
\<close>

function shift_down :: "nat \<Rightarrow> nat \<Rightarrow> Alias list \<Rightarrow> Alias list" where
  "shift_down j cnt arr =
     (if j < cnt - 1 then shift_down (Suc j) cnt (arr[j := arr ! Suc j]) else arr)"
  by pat_completeness auto
termination
  by (relation "measure (\<lambda>(j, cnt, arr). cnt - j)") auto

declare shift_down.simps [simp del]

text \<open>
  The deletion loop of \<^verbatim>\<open>newname\<close>: at the first live slot whose \<^verbatim>\<open>new_name\<close>
  is the argument, shift the later slots down, decrement the counter and return;
  \<open>None\<close> when the loop runs out.
\<close>

function delete_loop :: "string \<Rightarrow> nat \<Rightarrow> shell \<Rightarrow> shell option" where
  "delete_loop a1 i s =
     (if i < alias_count s then
        (if new_name (aliases s ! i) = a1 then
           Some (s\<lparr>aliases := shift_down i (alias_count s) (aliases s),
                   alias_count := alias_count s - 1\<rparr>)
         else delete_loop a1 (Suc i) s)
      else None)"
  by pat_completeness auto
termination
  by (relation "measure (\<lambda>(a1, i, s). alias_count s - i)") auto

declare delete_loop.simps [simp del]

definition newname :: builtin where
  "newname args s w =
     (case arg args 1 of
        None \<Rightarrow> Inr (1, s, eprintf (''Error: expected 1 or 2 arguments to '' @ dquote @ ''newname'' @ dquote @ nl) w)
      | Some a1 \<Rightarrow>
         (case arg args 2 of
            None \<Rightarrow>
              (case delete_loop a1 0 s of
                 Some s' \<Rightarrow> Inr (1, s', w)
               | None \<Rightarrow> Inr (1, s, eprintf (''Alias not found: '' @ a1 @ nl) w))
          | Some a2 \<Rightarrow>
              if alias_count s < MAX_ALIASES then
                Inr (1, s\<lparr>aliases := (aliases s)[alias_count s := \<lparr>new_name = a1, old_name = a2\<rparr>],
                          alias_count := Suc (alias_count s)\<rparr>, w)
              else Inr (1, s, eprintf (''Maximum number of aliases reached.'' @ nl) w)))"

subsection \<open>listnewnames and savenewnames\<close>

text \<open>
  Both loops run \<open>i\<close> from 0 to \<^verbatim>\<open>alias_count\<close> and print slot \<open>i\<close>; \<open>acc\<close> is what
  has been printed so far.
\<close>

function list_loop :: "Alias list \<Rightarrow> nat \<Rightarrow> nat \<Rightarrow> string \<Rightarrow> string" where
  "list_loop arr cnt i acc =
     (if i < cnt then
        list_loop arr cnt (Suc i) (acc @ new_name (arr ! i) @ '' -> '' @ old_name (arr ! i) @ nl)
      else acc)"
  by pat_completeness auto
termination
  by (relation "measure (\<lambda>(arr, cnt, i, acc). cnt - i)") auto

declare list_loop.simps [simp del]

definition listnewnames :: builtin where
  "listnewnames args s w = Inr (1, s, w\<lparr>out := list_loop (aliases s) (alias_count s) 0 (out w)\<rparr>)"

function save_loop :: "Alias list \<Rightarrow> nat \<Rightarrow> nat \<Rightarrow> string \<Rightarrow> string" where
  "save_loop arr cnt i acc =
     (if i < cnt then
        save_loop arr cnt (Suc i) (acc @ new_name (arr ! i) @ '' '' @ old_name (arr ! i) @ nl)
      else acc)"
  by pat_completeness auto
termination
  by (relation "measure (\<lambda>(arr, cnt, i, acc). cnt - i)") auto

declare save_loop.simps [simp del]

text \<open>
  \<^verbatim>\<open>fopen(args[1], "w")\<close> truncates the file; the results of \<^verbatim>\<open>fprintf\<close> and
  \<^verbatim>\<open>fclose\<close> are not checked by the source and the writes are taken to succeed.
\<close>

definition savenewnames :: builtin where
  "savenewnames args s w =
     (case arg args 1 of
        None \<Rightarrow> Inr (1, s, eprintf (''Error: argument 1 expected to '' @ dquote @ ''SAVENEWNAMES'' @ dquote @ nl) w)
      | Some path \<Rightarrow>
          if wr_denied w path then Inr (1, s, perror ''Error opening file'' w)
          else Inr (1, s, w\<lparr>files := (files w)(path \<mapsto> save_loop (aliases s) (alias_count s) 0 [])\<rparr>))"

subsection \<open>readnewnames\<close>

text \<open>\<^verbatim>\<open>isspace\<close> in the C locale: space, \<^verbatim>\<open>\t \n \v \f \r\<close>.\<close>

definition isspace :: "char \<Rightarrow> bool" where
  "isspace c = (c = CHR 0x20 \<or> c = CHR 0x09 \<or> c = CHR 0x0A \<or> c = CHR 0x0B \<or> c = CHR 0x0C \<or> c = CHR 0x0D)"

text \<open>
  One \<^verbatim>\<open>%s\<close> directive of \<^verbatim>\<open>fscanf\<close> on the unread part of the stream: skip white
  space, then take the bytes up to the next white space or the end. It fails, at the
  end of the stream, when nothing but white space is left. The second component is
  what remains unread. The blank between the two directives of \<^verbatim>\<open>"%s %s"\<close> skips
  white space, which the second directive does anyway.
\<close>

definition scan_s :: "string \<Rightarrow> string option \<times> string" where
  "scan_s inp =
     (let r = dropWhile isspace inp in
      if r = [] then (None, r)
      else (Some (takeWhile (\<lambda>c. \<not> isspace c) r), dropWhile (\<lambda>c. \<not> isspace c) r))"

lemma scan_s_shorter: "scan_s inp = (Some t, r) \<Longrightarrow> length r < length inp"
proof -
  assume a: "scan_s inp = (Some t, r)"
  let ?d = "dropWhile isspace inp"
  from a have ne: "?d \<noteq> []" and r: "r = dropWhile (\<lambda>c. \<not> isspace c) ?d"
    by (auto simp: scan_s_def Let_def split: if_splits)
  from ne have "\<not> isspace (hd ?d)"
    using hd_dropWhile by blast
  with ne have "length r < length ?d"
    unfolding r by (cases ?d) (auto simp: le_imp_less_Suc length_dropWhile_le)
  also have "length ?d \<le> length inp"
    by (rule length_dropWhile_le)
  finally show ?thesis .
qed

text \<open>
  \<^verbatim>\<open>char new_name[256], old_name[256];\<close> and the loop
  \<^verbatim>\<open>while (fscanf(file, "%s %s", new_name, old_name) == 2)\<close>. A directive stores the
  token and a terminating NUL, so a token of 256 bytes or more is written past the
  buffer: \<open>None\<close>. \<^verbatim>\<open>strdup\<close> copies the buffer as a C string. The result carries
  the array, the counter and the unread rest of the stream when the loop ends.
\<close>

definition NAME_BUF :: nat where
  "NAME_BUF = 256"

function fscanf_loop :: "string \<Rightarrow> Alias list \<Rightarrow> nat \<Rightarrow> (Alias list \<times> nat \<times> string) option" where
  "fscanf_loop inp arr cnt =
     (case scan_s inp of
        (None, r0) \<Rightarrow> Some (arr, cnt, r0)
      | (Some t1, r1) \<Rightarrow>
          if NAME_BUF \<le> length t1 then None
          else
            (case scan_s r1 of
               (None, r0) \<Rightarrow> Some (arr, cnt, r0)
             | (Some t2, r2) \<Rightarrow>
                 if NAME_BUF \<le> length t2 then None
                 else if cnt < MAX_ALIASES then
                   fscanf_loop r2 (arr[cnt := \<lparr>new_name = c_str t1, old_name = c_str t2\<rparr>]) (Suc cnt)
                 else fscanf_loop r2 arr cnt))"
  by pat_completeness auto
termination
  apply (relation "measure (\<lambda>(inp, arr, cnt). length inp)")
    apply simp
   apply (metis (no_types, lifting) scan_s_shorter less_trans in_measure case_prod_conv)
  apply (metis (no_types, lifting) scan_s_shorter less_trans in_measure case_prod_conv)
  done

declare fscanf_loop.simps [simp del]

definition readnewnames :: builtin where
  "readnewnames args s w =
     (case arg args 1 of
        None \<Rightarrow> Inr (1, s, eprintf (''Error: argument 1 expected to '' @ dquote @ ''READNEWNAMES'' @ dquote @ nl) w)
      | Some path \<Rightarrow>
          (case files w path of
             None \<Rightarrow> Inr (1, s, perror ''Error opening file'' w)
           | Some content \<Rightarrow>
               (case fscanf_loop content (aliases s) (alias_count s) of
                  None \<Rightarrow> Inl (Overrun w)
                | Some (arr, cnt, rest) \<Rightarrow> Inr (1, s\<lparr>aliases := arr, alias_count := cnt\<rparr>, w))))"

section \<open>Launching a program\<close>

text \<open>
  The parent's loop
  \<^verbatim>\<open>do { waitpid(pid, &status, WUNTRACED); } while (!WIFEXITED(status) && !WIFSIGNALED(status));\<close>
  over the statuses the child reports: \<open>True\<close> when the loop ends, \<open>False\<close> when a
  \<^verbatim>\<open>waitpid\<close> never returns.
\<close>

fun wait_loop :: "wstatus list \<Rightarrow> bool" where
  "wait_loop [] = False"
| "wait_loop (WStopped sig # sts) = wait_loop sts"
| "wait_loop (WExited code # sts) = True"
| "wait_loop (WSignaled sig # sts) = True"

text \<open>
  \<^verbatim>\<open>lsh_launch\<close> as the interpreter (the parent) runs it. When \<^verbatim>\<open>execvp\<close> fails the
  child calls \<^verbatim>\<open>perror("lsh")\<close> on the error stream it shares with the parent and
  then \<^verbatim>\<open>exit(EXIT_FAILURE)\<close>, which flushes the child's copy of the stdio buffer,
  so the bytes still unflushed at the \<^verbatim>\<open>fork\<close> reach standard output a second time,
  and which the parent's \<^verbatim>\<open>waitpid\<close> reports as an exit.
  What a child that runs a program writes or reads is not modelled, and every \<^verbatim>\<open>waitpid\<close> that
  returns is taken to have stored a status.
\<close>

definition lsh_launch :: builtin where
  "lsh_launch args s w =
     (case spawn w args of
        ForkFails \<Rightarrow> Inr (1, s, perror ''lsh'' w)
      | ExecFails k \<Rightarrow>
          (let w' = printf (drop (length (out w) - k) (out w)) (perror ''lsh'' w) in
           if wait_loop [WExited (nat EXIT_FAILURE)] then Inr (1, s, w') else Inl (Blocked w'))
      | Runs sts \<Rightarrow> if wait_loop sts then Inr (1, s, w) else Inl (Blocked w))"

section \<open>Dispatch\<close>

definition builtin_str :: "string list" where
  "builtin_str = [''cd'', ''help'', ''exit'', ''setshellname'', ''setterminator'', ''newname'',
     ''listnewnames'', ''savenewnames'', ''readnewnames'', ''STOP'']"

definition builtin_func :: "builtin list" where
  "builtin_func = [lsh_cd, lsh_help, lsh_exit, setshellname, setterminator, newname,
     listnewnames, savenewnames, readnewnames, lsh_stop]"

definition lsh_num_builtins :: nat where
  "lsh_num_builtins = length builtin_str"

text \<open>
  The alias loop of \<^verbatim>\<open>lsh_execute\<close>; the result is \<^verbatim>\<open>args[0]\<close> after the loop.
\<close>

function alias_loop :: "string \<Rightarrow> Alias list \<Rightarrow> nat \<Rightarrow> nat \<Rightarrow> string" where
  "alias_loop a0 arr cnt i =
     (if i < cnt then
        (if a0 = new_name (arr ! i) then old_name (arr ! i)
         else alias_loop a0 arr cnt (Suc i))
      else a0)"
  by pat_completeness auto
termination
  by (relation "measure (\<lambda>(a0, arr, cnt, i). cnt - i)") auto

declare alias_loop.simps [simp del]

text \<open>
  The builtin loop of \<^verbatim>\<open>lsh_execute\<close>; the result is the index whose handler is
  called, \<open>None\<close> when the loop runs out.
\<close>

function builtin_loop :: "string \<Rightarrow> nat \<Rightarrow> nat option" where
  "builtin_loop a0 i =
     (if i < lsh_num_builtins then
        (if a0 = builtin_str ! i then Some i else builtin_loop a0 (Suc i))
      else None)"
  by pat_completeness auto
termination
  by (relation "measure (\<lambda>(a0, i). lsh_num_builtins - i)") auto

declare builtin_loop.simps [simp del]

definition lsh_execute :: "string list \<Rightarrow> shell \<Rightarrow> world \<Rightarrow> ret" where
  "lsh_execute args s w =
     (case args of
        [] \<Rightarrow> Inr (1, s, w)
      | a0 # rest \<Rightarrow>
          (let args' = alias_loop a0 (aliases s) (alias_count s) 0 # rest in
           case builtin_loop (hd args') 0 of
             Some i \<Rightarrow> (builtin_func ! i) args' s w
           | None \<Rightarrow> lsh_launch args' s w))"

section \<open>Reading and splitting a line\<close>

definition LSH_RL_BUFSIZE :: nat where
  "LSH_RL_BUFSIZE = 1024"

text \<open>
  The \<^verbatim>\<open>while (1)\<close> loop of \<^verbatim>\<open>lsh_read_line\<close> over the unread standard input; at
  its end \<^verbatim>\<open>getchar\<close> returns EOF. \<open>buffer\<close> holds the \<open>position\<close> bytes stored so
  far. The line returned is the buffer as a C string, with the unread input.
\<close>

fun read_loop :: "string \<Rightarrow> nat \<Rightarrow> nat \<Rightarrow> string \<Rightarrow> world \<Rightarrow> halt + (string \<times> string \<times> world)" where
  "read_loop [] position bufsize buffer w = Inl (Exit EXIT_SUCCESS w)"
| "read_loop (c # cs) position bufsize buffer w =
     (if c = CHR 0x0A then Inr (c_str buffer, cs, w)
      else if bufsize \<le> Suc position then
        (case alloc w of
           None \<Rightarrow> Inl (alloc_error w)
         | Some w' \<Rightarrow> read_loop cs (Suc position) (bufsize + LSH_RL_BUFSIZE) (buffer @ [c]) w')
      else read_loop cs (Suc position) bufsize (buffer @ [c]) w)"

definition lsh_read_line :: "string \<Rightarrow> world \<Rightarrow> halt + (string \<times> string \<times> world)" where
  "lsh_read_line inp w =
     (case alloc w of
        None \<Rightarrow> Inl (alloc_error w)
      | Some w' \<Rightarrow> read_loop inp 0 LSH_RL_BUFSIZE [] w')"

definition LSH_TOK_BUFSIZE :: nat where
  "LSH_TOK_BUFSIZE = 64"

text \<open>\<^verbatim>\<open>LSH_TOK_DELIM " \t\r\n\a"\<close>\<close>

definition is_delim :: "char \<Rightarrow> bool" where
  "is_delim c = (c = CHR 0x20 \<or> c = CHR 0x09 \<or> c = CHR 0x0D \<or> c = CHR 0x0A \<or> c = CHR 0x07)"

text \<open>
  The tokens the successive \<^verbatim>\<open>strtok\<close> calls return: the maximal runs of bytes that
  are not delimiters. \<open>tok\<close> is the run being read.
\<close>

fun strtok_all :: "string \<Rightarrow> string \<Rightarrow> string list" where
  "strtok_all tok [] = (if tok = [] then [] else [tok])"
| "strtok_all tok (c # cs) =
     (if is_delim c then (if tok = [] then strtok_all [] cs else tok # strtok_all [] cs)
      else strtok_all (tok @ [c]) cs)"

text \<open>
  The token loop of \<^verbatim>\<open>lsh_split_line\<close>: it stores each token and grows the array
  when \<open>position\<close> reaches \<open>bufsize\<close>.
\<close>

fun token_loop :: "string list \<Rightarrow> nat \<Rightarrow> nat \<Rightarrow> world \<Rightarrow> halt + world" where
  "token_loop [] position bufsize w = Inr w"
| "token_loop (token # toks) position bufsize w =
     (if bufsize \<le> Suc position then
        (case alloc w of
           None \<Rightarrow> Inl (alloc_error w)
         | Some w' \<Rightarrow> token_loop toks (Suc position) (bufsize + LSH_TOK_BUFSIZE) w')
      else token_loop toks (Suc position) bufsize w)"

definition lsh_split_line :: "string \<Rightarrow> world \<Rightarrow> halt + (string list \<times> world)" where
  "lsh_split_line line w =
     (case alloc w of
        None \<Rightarrow> Inl (alloc_error w)
      | Some w' \<Rightarrow>
          (case token_loop (strtok_all [] line) 0 LSH_TOK_BUFSIZE w' of
             Inl h \<Rightarrow> Inl h
           | Inr w'' \<Rightarrow> Inr (strtok_all [] line, w'')))"

section \<open>The loop and main\<close>

lemma read_loop_shorter:
  "read_loop inp position bufsize buffer w = Inr (line, rest, w') \<Longrightarrow> length rest < length inp"
  by (induction inp position bufsize buffer w rule: read_loop.induct)
     (fastforce split: if_splits option.splits)+

lemma lsh_read_line_shorter:
  "lsh_read_line inp w = Inr (line, rest, w') \<Longrightarrow> length rest < length inp"
  by (auto simp: lsh_read_line_def read_loop_shorter split: option.splits)

text \<open>
  \<^verbatim>\<open>lsh_loop\<close> on the unread standard input: print the prompt, read a line, split
  it, execute it, and go on while the status is not 0. It returns to \<^verbatim>\<open>main\<close>
  (\<open>Inr\<close>) when a command returned 0.
\<close>

function lsh_loop :: "string \<Rightarrow> shell \<Rightarrow> world \<Rightarrow> halt + (shell \<times> world)" where
  "lsh_loop inp s w =
     (case lsh_read_line inp (printf (shellname s @ terminator s @ '' '') w) of
        Inl h \<Rightarrow> Inl h
      | Inr (line, rest, w2) \<Rightarrow>
          (case lsh_split_line line w2 of
             Inl h \<Rightarrow> Inl h
           | Inr (args, w3) \<Rightarrow>
               (case lsh_execute args s w3 of
                  Inl h \<Rightarrow> Inl h
                | Inr (status, s', w4) \<Rightarrow>
                    if status \<noteq> 0 then lsh_loop rest s' w4 else Inr (s', w4))))"
  by pat_completeness auto
termination
  apply (relation "measure (\<lambda>(inp, s, w). length inp)")
   apply simp
  apply (metis (no_types, lifting) lsh_read_line_shorter in_measure case_prod_conv)
  done

declare lsh_loop.simps [simp del]

definition main :: "string \<Rightarrow> world \<Rightarrow> halt" where
  "main inp w =
     (case lsh_loop inp init_shell w of
        Inl h \<Rightarrow> h
      | Inr (s, w') \<Rightarrow> Exit EXIT_SUCCESS w')"

section \<open>The specification's words\<close>

subsection \<open>The alias table and dispatch\<close>

text \<open>
  \<open>resolve\<close>: the target of the first entry, in table order, whose \<open>new_name\<close> is
  the name. \<open>remove_first\<close>: the table without its first entry of that name, the other
  entries in their order; \<open>None\<close> when no entry has the name.
\<close>

definition resolve :: "Alias list \<Rightarrow> string \<Rightarrow> string option" where
  "resolve tbl name = map_option old_name (find (\<lambda>a. new_name a = name) tbl)"

fun remove_first :: "string \<Rightarrow> Alias list \<Rightarrow> Alias list option" where
  "remove_first n [] = None"
| "remove_first n (a # as) =
     (if new_name a = n then Some as else map_option ((#) a) (remove_first n as))"

text \<open>
  Dispatch as the specification words it: nothing for no tokens; else the first token
  is resolved once through the table, the resolved name is looked up in the registry
  by equality, and the handler found, or else the launcher, gets the tokens with the
  resolved name first.
\<close>

definition dispatch :: "string list \<Rightarrow> shell \<Rightarrow> world \<Rightarrow> ret" where
  "dispatch tokens s w =
     (case tokens of
        [] \<Rightarrow> Inr (1, s, w)
      | t # ts \<Rightarrow>
          (let t' = (case resolve (table s) t of Some target \<Rightarrow> target | None \<Rightarrow> t) in
           case map_of (zip builtin_str builtin_func) t' of
             Some handler \<Rightarrow> handler (t' # ts) s w
           | None \<Rightarrow> lsh_launch (t' # ts) s w))"

subsection \<open>Loading\<close>

text \<open>
  The capacity rule of \<open>define\<close> on the array and the counter: store the pair in slot
  \<^verbatim>\<open>alias_count\<close> and count it when the counter is below \<^verbatim>\<open>MAX_ALIASES\<close>, else
  change nothing.
\<close>

definition define_slot :: "Alias list \<times> nat \<Rightarrow> Alias \<Rightarrow> Alias list \<times> nat" where
  "define_slot ac a =
     (if snd ac < MAX_ALIASES then ((fst ac)[snd ac := a], Suc (snd ac)) else ac)"

text \<open>
  The white-space delimited tokens of a file in order, and their grouping in pairs; a
  last token without partner forms no pair.
\<close>

function scan_tokens :: "string \<Rightarrow> string list" where
  "scan_tokens inp = (case scan_s inp of (None, r) \<Rightarrow> [] | (Some t, r) \<Rightarrow> t # scan_tokens r)"
  by pat_completeness auto
termination
  apply (relation "measure length")
   apply simp
  apply (metis scan_s_shorter in_measure)
  done

declare scan_tokens.simps [simp del]

fun pairs_of :: "string list \<Rightarrow> (string \<times> string) list" where
  "pairs_of (t1 # t2 # ts) = (t1, t2) # pairs_of ts"
| "pairs_of ts = []"

text \<open>The entry stored for a parsed pair, and the result of loading a file.\<close>

definition mk_alias :: "string \<times> string \<Rightarrow> Alias" where
  "mk_alias p = \<lparr>new_name = c_str (fst p), old_name = c_str (snd p)\<rparr>"

definition loaded :: "string \<Rightarrow> Alias list \<times> nat \<Rightarrow> Alias list \<times> nat" where
  "loaded content ac = foldl define_slot ac (map mk_alias (pairs_of (scan_tokens content)))"

text \<open>
  A sequence of definitions and loads, each through its builtin, from a given state;
  it ends early when a load overruns its buffer.
\<close>

datatype alias_op = Define string string | Load string

fun run_ops :: "alias_op list \<Rightarrow> shell \<Rightarrow> world \<Rightarrow> halt + (shell \<times> world)" where
  "run_ops [] s w = Inr (s, w)"
| "run_ops (Define n t # ops) s w =
     (case newname [''newname'', n, t] s w of
        Inl h \<Rightarrow> Inl h
      | Inr (st, s', w') \<Rightarrow> run_ops ops s' w')"
| "run_ops (Load path # ops) s w =
     (case readnewnames [''readnewnames'', path] s w of
        Inl h \<Rightarrow> Inl h
      | Inr (st, s', w') \<Rightarrow> run_ops ops s' w')"

subsection \<open>The alias file\<close>

text \<open>
  One line per alias, the two names separated by a blank, in table order. A name that
  the file can carry and the loader can take back: not empty, without white space,
  without NUL (it is a C string) and, with its terminator, within the loader's buffer.
\<close>

definition alias_line :: "Alias \<Rightarrow> string" where
  "alias_line a = new_name a @ '' '' @ old_name a @ nl"

definition saved :: "Alias list \<Rightarrow> string" where
  "saved tbl = concat (map alias_line tbl)"

definition name_ok :: "string \<Rightarrow> bool" where
  "name_ok n = (n \<noteq> [] \<and> length n < NAME_BUF \<and> list_all (\<lambda>c. \<not> isspace c \<and> c \<noteq> CHR 0x00) n)"

definition alias_ok :: "Alias \<Rightarrow> bool" where
  "alias_ok a = (name_ok (new_name a) \<and> name_ok (old_name a))"

section \<open>Outcomes of a run\<close>

text \<open>
  The environment in which a run ended, whether an outcome is an exit of the process
  or a write past a buffer, the environment when \<^verbatim>\<open>lsh_loop\<close> is over, and whether a status reported by
  \<^verbatim>\<open>waitpid\<close> is that of a stopped child.
\<close>

definition world_of :: "halt \<Rightarrow> world" where
  "world_of h = (case h of Exit c w \<Rightarrow> w | Blocked w \<Rightarrow> w | Overrun w \<Rightarrow> w)"

definition is_exit :: "halt \<Rightarrow> bool" where
  "is_exit h = (case h of Exit c w \<Rightarrow> True | Blocked w \<Rightarrow> False | Overrun w \<Rightarrow> False)"

definition is_overrun :: "halt \<Rightarrow> bool" where
  "is_overrun h = (case h of Exit c w \<Rightarrow> False | Blocked w \<Rightarrow> False | Overrun w \<Rightarrow> True)"

definition end_world :: "halt + (shell \<times> world) \<Rightarrow> world" where
  "end_world r = (case r of Inl h \<Rightarrow> world_of h | Inr (s, w) \<Rightarrow> w)"

definition is_stopped :: "wstatus \<Rightarrow> bool" where
  "is_stopped st = (case st of WStopped sig \<Rightarrow> True | WExited c \<Rightarrow> False | WSignaled sig \<Rightarrow> False)"

text \<open>What a handler may do to the environment as far as the loop's exits and prompts
  go: the allocation outcomes stay, standard output only grows.\<close>

definition grows :: "world \<Rightarrow> world \<Rightarrow> bool" where
  "grows w w' = (heap w' = heap w \<and> prefix (out w) (out w'))"

definition handler_ok :: "builtin \<Rightarrow> bool" where
  "handler_ok f = (\<forall>args s w. case f args s w of
      Inl h \<Rightarrow> \<not> is_exit h \<and> grows w (world_of h)
    | Inr (st, s', w') \<Rightarrow> grows w w')"

text \<open>No checked allocation of the run fails.\<close>

definition allocs_ok :: "world \<Rightarrow> bool" where
  "allocs_ok w = (False \<notin> set (heap w))"

text \<open>A handler that keeps the array at its size and the counter within it.\<close>

definition keeps_ok :: "builtin \<Rightarrow> bool" where
  "keeps_ok f = (\<forall>args s w st s' w'. shell_ok s \<and> f args s w = Inr (st, s', w') \<longrightarrow> shell_ok s')"

section \<open>Concrete states\<close>

text \<open>
  \<open>world0\<close>: nothing written yet, no file, every path writable, every allocation
  succeeds, every \<^verbatim>\<open>fork\<close> fails. \<open>world_child sts\<close>: every command runs as a child that
  reports the statuses \<open>sts\<close>. \<open>world_noexec\<close>: the prompt is printed and unflushed, and
  every \<^verbatim>\<open>execvp\<close> fails. \<open>world_file c\<close>: \<open>world0\<close> with the one file \<^verbatim>\<open>f\<close> of content \<open>c\<close>.
  \<open>mk_shell tbl\<close>: the initial state with \<open>tbl\<close> in the first slots of the array.
\<close>

definition world0 :: world where
  "world0 = \<lparr>out = [], err = [], files = Map.empty, wr_denied = (\<lambda>p. False),
     chdir_to = (\<lambda>c d. Some d), cwd = ''/'', heap = [], spawn = (\<lambda>a. ForkFails)\<rparr>"

definition world_child :: "wstatus list \<Rightarrow> world" where
  "world_child sts = world0\<lparr>spawn := (\<lambda>a. Runs sts)\<rparr>"

definition world_noexec :: world where
  "world_noexec = world0\<lparr>out := ''myshell> '', spawn := (\<lambda>a. ExecFails 9)\<rparr>"

definition world_file :: "string \<Rightarrow> world" where
  "world_file content = world0\<lparr>files := [''f'' \<mapsto> content]\<rparr>"

definition mk_shell :: "Alias list \<Rightarrow> shell" where
  "mk_shell tbl = init_shell\<lparr>aliases := tbl @ replicate (MAX_ALIASES - length tbl) \<lparr>new_name = [], old_name = []\<rparr>,
     alias_count := length tbl\<rparr>"

definition dup_shell :: shell where
  "dup_shell = mk_shell [\<lparr>new_name = ''a'', old_name = ''b''\<rparr>, \<lparr>new_name = ''ll'', old_name = ''ls''\<rparr>,
     \<lparr>new_name = ''c'', old_name = ''d''\<rparr>, \<lparr>new_name = ''ll'', old_name = ''dir''\<rparr>]"

definition full_shell :: shell where
  "full_shell = mk_shell (replicate MAX_ALIASES \<lparr>new_name = ''a'', old_name = ''b''\<rparr>)"

definition long_shell :: shell where
  "long_shell = mk_shell [\<lparr>new_name = replicate 256 (CHR ''a''), old_name = ''ls''\<rparr>]"

section \<open>Lemmas\<close>

subsection \<open>The array loops and the table\<close>

lemma alias_loop_find:
  "cnt \<le> length arr \<Longrightarrow>
   alias_loop a0 arr cnt i =
     (case find (\<lambda>a. new_name a = a0) (drop i (take cnt arr)) of Some a \<Rightarrow> old_name a | None \<Rightarrow> a0)"
proof (induction a0 arr cnt i rule: alias_loop.induct)
  case (1 a0 arr cnt i)
  show ?case
  proof (cases "i < cnt")
    case True
    with 1(2) have "drop i (take cnt arr) = arr ! i # drop (Suc i) (take cnt arr)"
      by (simp add: Cons_nth_drop_Suc [symmetric])
    with True 1 show ?thesis
      by (subst alias_loop.simps) auto
  next
    case False
    then show ?thesis by (subst alias_loop.simps) simp
  qed
qed

lemma builtin_loop_map_of:
  "map_option ((!) builtin_func) (builtin_loop a0 i) = map_of (drop i (zip builtin_str builtin_func)) a0"
proof (induction a0 i rule: builtin_loop.induct)
  case (1 a0 i)
  have len: "length builtin_func = lsh_num_builtins" "length builtin_str = lsh_num_builtins"
    by (simp_all add: builtin_func_def builtin_str_def lsh_num_builtins_def)
  show ?case
  proof (cases "i < lsh_num_builtins")
    case True
    with len have "drop i (zip builtin_str builtin_func) =
        (builtin_str ! i, builtin_func ! i) # drop (Suc i) (zip builtin_str builtin_func)"
      by (simp add: Cons_nth_drop_Suc [symmetric])
    with True 1 show ?thesis
      by (subst builtin_loop.simps) auto
  next
    case False
    with len show ?thesis by (subst builtin_loop.simps) simp
  qed
qed

lemma shift_down_length: "length (shift_down j cnt arr) = length arr"
  by (induction j cnt arr rule: shift_down.induct) (subst shift_down.simps, simp)

lemma shift_down_take:
  "j < cnt \<Longrightarrow> cnt \<le> length arr \<Longrightarrow>
   take (cnt - 1) (shift_down j cnt arr) = take j arr @ drop (Suc j) (take cnt arr)"
proof (induction j cnt arr rule: shift_down.induct)
  case (1 j cnt arr)
  show ?case
  proof (cases "j < cnt - 1")
    case True
    let ?arr' = "arr[j := arr ! Suc j]"
    from True 1(3) have sj: "Suc j < length arr" by simp
    have ih: "take (cnt - 1) (shift_down (Suc j) cnt ?arr') =
        take (Suc j) ?arr' @ drop (Suc (Suc j)) (take cnt ?arr')"
    proof (rule 1(1))
      show "j < cnt - 1" by (rule True)
      show "Suc j < cnt" using True by simp
      show "cnt \<le> length ?arr'" using 1(3) by simp
    qed
    from sj have t1: "take (Suc j) ?arr' = take j arr @ [arr ! Suc j]"
      by (simp add: take_Suc_conv_app_nth)
    have t2: "drop (Suc (Suc j)) (take cnt ?arr') = drop (Suc (Suc j)) (take cnt arr)"
      by (simp add: drop_take)
    from True sj have t3: "drop (Suc j) (take cnt arr) = arr ! Suc j # drop (Suc (Suc j)) (take cnt arr)"
      by (simp add: Cons_nth_drop_Suc [symmetric])
    have "shift_down j cnt arr = shift_down (Suc j) cnt ?arr'"
      using True by (subst shift_down.simps) simp
    then show ?thesis
      by (simp only: ih t1 t2 t3 append_assoc append_Cons append_Nil)
  next
    case False
    with 1(2) have j: "j = cnt - 1" by simp
    have "shift_down j cnt arr = arr"
      using False by (subst shift_down.simps) simp
    with j 1(2,3) show ?thesis
      by simp
  qed
qed


lemma delete_loop_frame:
  "delete_loop a1 i s = Some s' \<Longrightarrow>
   shellname s' = shellname s \<and> terminator s' = terminator s \<and>
   length (aliases s') = length (aliases s) \<and> Suc (alias_count s') = alias_count s"
proof (induction a1 i s rule: delete_loop.induct)
  case (1 a1 i s)
  show ?case
  proof (cases "i < alias_count s \<and> new_name (aliases s ! i) \<noteq> a1")
    case True
    with 1(2) have "delete_loop a1 (Suc i) s = Some s'"
      by (subst (asm) delete_loop.simps) simp
    with True show ?thesis by (intro 1(1)) simp_all
  next
    case False
    with 1(2) show ?thesis
      by (subst (asm) delete_loop.simps) (auto simp: shift_down_length split: if_splits)
  qed
qed

lemma delete_loop_table:
  "alias_count s \<le> length (aliases s) \<Longrightarrow> i \<le> alias_count s \<Longrightarrow>
   map_option table (delete_loop a1 i s) =
     map_option ((@) (take i (aliases s))) (remove_first a1 (drop i (table s)))"
proof (induction a1 i s rule: delete_loop.induct)
  case (1 a1 i s)
  show ?case
  proof (cases "i < alias_count s")
    case True
    with 1(2) have il: "i < length (aliases s)" by simp
    from True 1(2) have d: "drop i (table s) = aliases s ! i # drop (Suc i) (table s)"
      by (simp add: table_def Cons_nth_drop_Suc [symmetric])
    show ?thesis
    proof (cases "new_name (aliases s ! i) = a1")
      case m: True
      from True 1(2) have "take (alias_count s - 1) (shift_down i (alias_count s) (aliases s)) =
          take i (aliases s) @ drop (Suc i) (take (alias_count s) (aliases s))"
        by (rule shift_down_take)
      moreover from True m have "delete_loop a1 i s =
          Some (s\<lparr>aliases := shift_down i (alias_count s) (aliases s), alias_count := alias_count s - 1\<rparr>)"
        by (subst delete_loop.simps) simp
      ultimately show ?thesis using m d
        by (simp add: table_def)
    next
      case m: False
      have ih: "map_option table (delete_loop a1 (Suc i) s) =
          map_option ((@) (take (Suc i) (aliases s))) (remove_first a1 (drop (Suc i) (table s)))"
        using True m 1(2) by (intro 1(1)) simp_all
      from True m have "delete_loop a1 i s = delete_loop a1 (Suc i) s"
        by (subst delete_loop.simps) simp
      with ih m d il show ?thesis
        by (cases "remove_first a1 (drop (Suc i) (table s))") (simp_all add: take_Suc_conv_app_nth)
    qed
  next
    case False
    with 1(3) have "i = alias_count s" by simp
    moreover from False have "delete_loop a1 i s = None"
      by (subst delete_loop.simps) simp
    ultimately show ?thesis
      by (simp add: table_def)
  qed
qed

lemma remove_first_None: "remove_first n tbl = None \<longleftrightarrow> n \<notin> new_name ` set tbl"
  by (induction tbl) auto

lemma remove_first_Some:
  "remove_first n tbl = Some tbl' \<longleftrightarrow>
   (\<exists>pre a post. tbl = pre @ a # post \<and> n \<notin> new_name ` set pre \<and> new_name a = n \<and> tbl' = pre @ post)"
proof (induction tbl arbitrary: tbl')
  case Nil
  then show ?case by simp
next
  case (Cons b tbl)
  show ?case
  proof (cases "new_name b = n")
    case True
    show ?thesis
    proof
      assume "remove_first n (b # tbl) = Some tbl'"
      with True have "tbl' = tbl" by simp
      with True show "\<exists>pre a post. b # tbl = pre @ a # post \<and> n \<notin> new_name ` set pre \<and> new_name a = n \<and> tbl' = pre @ post"
        by (intro exI [of _ "[]"] exI [of _ b] exI [of _ tbl]) simp
    next
      assume "\<exists>pre a post. b # tbl = pre @ a # post \<and> n \<notin> new_name ` set pre \<and> new_name a = n \<and> tbl' = pre @ post"
      then obtain pre a post where h: "b # tbl = pre @ a # post" "n \<notin> new_name ` set pre" "new_name a = n" "tbl' = pre @ post"
        by blast
      from h(1,2) True have "pre = []" by (cases pre) auto
      with h True show "remove_first n (b # tbl) = Some tbl'" by simp
    qed
  next
    case False
    show ?thesis
    proof
      assume "remove_first n (b # tbl) = Some tbl'"
      with False obtain t where t: "remove_first n tbl = Some t" "tbl' = b # t" by auto
      from t(1) Cons.IH obtain pre a post where "tbl = pre @ a # post" "n \<notin> new_name ` set pre" "new_name a = n" "t = pre @ post"
        by blast
      with False t(2) show "\<exists>pre a post. b # tbl = pre @ a # post \<and> n \<notin> new_name ` set pre \<and> new_name a = n \<and> tbl' = pre @ post"
        by (intro exI [of _ "b # pre"] exI [of _ a] exI [of _ post]) simp
    next
      assume "\<exists>pre a post. b # tbl = pre @ a # post \<and> n \<notin> new_name ` set pre \<and> new_name a = n \<and> tbl' = pre @ post"
      then obtain pre a post where h: "b # tbl = pre @ a # post" "n \<notin> new_name ` set pre" "new_name a = n" "tbl' = pre @ post"
        by blast
      from h(1,3) False obtain pre' where p: "pre = b # pre'" by (cases pre) auto
      with h have "tbl = pre' @ a # post" "n \<notin> new_name ` set pre'" by auto
      with h(3) Cons.IH [of "pre' @ post"] have "remove_first n tbl = Some (pre' @ post)" by blast
      with False p h(4) show "remove_first n (b # tbl) = Some tbl'" by simp
    qed
  qed
qed


lemma alias_loop_resolve:
  "shell_ok s \<Longrightarrow>
   alias_loop t (aliases s) (alias_count s) 0 =
     (case resolve (table s) t of Some target \<Rightarrow> target | None \<Rightarrow> t)"
proof -
  assume "shell_ok s"
  then have "alias_count s \<le> length (aliases s)" by (simp add: shell_ok_def)
  then have "alias_loop t (aliases s) (alias_count s) 0 =
      (case find (\<lambda>a. new_name a = t) (drop 0 (take (alias_count s) (aliases s))) of
         Some a \<Rightarrow> old_name a | None \<Rightarrow> t)"
    by (rule alias_loop_find)
  then show ?thesis
    by (simp add: resolve_def table_def split: option.split)
qed

lemma builtin_loop_handler:
  "(case builtin_loop a 0 of Some i \<Rightarrow> (builtin_func ! i) args s w | None \<Rightarrow> lsh_launch args s w) =
   (case map_of (zip builtin_str builtin_func) a of Some handler \<Rightarrow> handler args s w | None \<Rightarrow> lsh_launch args s w)"
proof -
  have "map_of (zip builtin_str builtin_func) a = map_option ((!) builtin_func) (builtin_loop a 0)"
    using builtin_loop_map_of [of a 0] by simp
  then show ?thesis
    by (cases "builtin_loop a 0") simp_all
qed

lemma lsh_execute_dispatch: "shell_ok s \<Longrightarrow> lsh_execute tokens s w = dispatch tokens s w"
  by (cases tokens) (simp_all add: lsh_execute_def dispatch_def Let_def alias_loop_resolve builtin_loop_handler)

lemma find_first_split:
  "n \<notin> new_name ` set pre \<Longrightarrow> new_name a = n \<Longrightarrow>
   find (\<lambda>b. new_name b = n) (pre @ a # post) = Some a"
  by (induction pre) auto

lemma shell_ok_mk_shell: "length tbl \<le> MAX_ALIASES \<Longrightarrow> shell_ok (mk_shell tbl)"
  by (simp add: shell_ok_def mk_shell_def)

lemma table_mk_shell: "table (mk_shell tbl) = tbl"
  by (simp add: table_def mk_shell_def)

subsection \<open>What the handlers leave alone\<close>

lemma wait_loop_iff: "wait_loop sts \<longleftrightarrow> (\<exists>st \<in> set sts. \<not> is_stopped st)"
  by (induction sts rule: wait_loop.induct) (simp_all add: is_stopped_def)

lemma list_loop_prefix: "prefix acc (list_loop arr cnt i acc)"
proof (induction arr cnt i acc rule: list_loop.induct)
  case (1 arr cnt i acc)
  show ?case
  proof (cases "i < cnt")
    case True
    let ?acc = "acc @ new_name (arr ! i) @ '' -> '' @ old_name (arr ! i) @ nl"
    from True have "list_loop arr cnt i acc = list_loop arr cnt (Suc i) ?acc"
      by (subst list_loop.simps) simp
    moreover from True have "prefix ?acc (list_loop arr cnt (Suc i) ?acc)"
      by (rule 1)
    moreover have "prefix acc ?acc" by simp
    ultimately show ?thesis by (metis prefix_order.trans)
  next
    case False
    then show ?thesis by (subst list_loop.simps) simp
  qed
qed

lemma grows_refl: "grows w w"
  by (simp add: grows_def)

lemma grows_trans: "grows w w' \<Longrightarrow> grows w' w'' \<Longrightarrow> grows w w''"
  by (auto simp: grows_def)

lemma handler_ok_cd: "handler_ok lsh_cd"
  by (simp add: handler_ok_def lsh_cd_def grows_def eprintf_def perror_def split: option.split)

lemma handler_ok_help: "handler_ok lsh_help"
  by (simp add: handler_ok_def lsh_help_def grows_def printf_def)

lemma handler_ok_exit: "handler_ok lsh_exit"
  by (simp add: handler_ok_def lsh_exit_def grows_def)

lemma handler_ok_stop: "handler_ok lsh_stop"
  by (simp add: handler_ok_def lsh_stop_def grows_def)

lemma handler_ok_setshellname: "handler_ok setshellname"
  by (simp add: handler_ok_def setshellname_def grows_def split: option.split)

lemma handler_ok_setterminator: "handler_ok setterminator"
  by (simp add: handler_ok_def setterminator_def grows_def split: option.split)

lemma handler_ok_newname: "handler_ok newname"
  by (simp add: handler_ok_def newname_def grows_def eprintf_def split: option.split)

lemma handler_ok_listnewnames: "handler_ok listnewnames"
  by (simp add: handler_ok_def listnewnames_def grows_def list_loop_prefix)

lemma handler_ok_savenewnames: "handler_ok savenewnames"
  by (simp add: handler_ok_def savenewnames_def grows_def eprintf_def perror_def split: option.split)

lemma handler_ok_readnewnames: "handler_ok readnewnames"
  by (simp add: handler_ok_def readnewnames_def grows_def eprintf_def perror_def is_exit_def world_of_def
      split: option.split prod.split)

lemma handler_ok_launch: "handler_ok lsh_launch"
  by (simp add: handler_ok_def lsh_launch_def grows_def perror_def printf_def is_exit_def world_of_def
      split: proc.split)

lemma handler_ok_builtin: "f \<in> set builtin_func \<Longrightarrow> handler_ok f"
proof -
  assume "f \<in> set builtin_func"
  then consider "f = lsh_cd" | "f = lsh_help" | "f = lsh_exit" | "f = setshellname"
    | "f = setterminator" | "f = newname" | "f = listnewnames" | "f = savenewnames"
    | "f = readnewnames" | "f = lsh_stop"
    unfolding builtin_func_def set_simps insert_iff empty_iff by blast
  then show ?thesis
    by cases (simp_all only: handler_ok_cd handler_ok_help handler_ok_exit handler_ok_stop
      handler_ok_setshellname handler_ok_setterminator handler_ok_newname handler_ok_listnewnames
      handler_ok_savenewnames handler_ok_readnewnames)
qed

lemma builtin_loop_lt: "builtin_loop a i = Some k \<Longrightarrow> k < lsh_num_builtins"
proof (induction a i rule: builtin_loop.induct)
  case (1 a i)
  show ?case
  proof (cases "i < lsh_num_builtins \<and> a \<noteq> builtin_str ! i")
    case True
    with 1(2) have "builtin_loop a (Suc i) = Some k"
      by (subst (asm) builtin_loop.simps) simp
    with True show ?thesis by (intro 1(1)) simp_all
  next
    case False
    with 1(2) show ?thesis
      by (subst (asm) builtin_loop.simps) (auto split: if_splits)
  qed
qed

lemma lsh_execute_frame:
  "case lsh_execute args s w of
     Inl h \<Rightarrow> \<not> is_exit h \<and> grows w (world_of h)
   | Inr (st, s', w') \<Rightarrow> grows w w'"
proof (cases args)
  case Nil
  then show ?thesis by (simp add: lsh_execute_def grows_refl)
next
  case (Cons a0 rest)
  let ?args = "alias_loop a0 (aliases s) (alias_count s) 0 # rest"
  show ?thesis
  proof (cases "builtin_loop (hd ?args) 0")
    case None
    with Cons have "lsh_execute args s w = lsh_launch ?args s w"
      by (simp add: lsh_execute_def)
    with handler_ok_launch show ?thesis
      unfolding handler_ok_def by metis
  next
    case (Some i)
    then have "i < length builtin_func"
      using builtin_loop_lt [of "hd ?args" 0 i] by (simp add: lsh_num_builtins_def builtin_str_def builtin_func_def)
    then have "handler_ok (builtin_func ! i)"
      by (intro handler_ok_builtin nth_mem)
    moreover from Some Cons have "lsh_execute args s w = (builtin_func ! i) ?args s w"
      by (simp add: lsh_execute_def)
    ultimately show ?thesis
      unfolding handler_ok_def by metis
  qed
qed

subsection \<open>The launcher\<close>

lemma launch_fork_fail:
  "spawn w args = ForkFails \<Longrightarrow> lsh_launch args s w = Inr (1, s, perror ''lsh'' w)"
  by (simp add: lsh_launch_def)

lemma launch_exec_fail:
  "spawn w args = ExecFails k \<Longrightarrow>
   lsh_launch args s w =
     Inr (1, s, printf (drop (length (out w) - k) (out w)) (perror ''lsh'' w))"
  by (simp add: lsh_launch_def)

lemma launch_fail_report:
  "spawn w args = ForkFails \<or> spawn w args = ExecFails k \<Longrightarrow>
   \<exists>w'. lsh_launch args s w = Inr (1, s, w') \<and> err w' = err w @ [Perror ''lsh'']"
  by (auto simp: lsh_launch_def perror_def printf_def)

lemma launch_runs: "spawn w args = Runs sts \<Longrightarrow>
   lsh_launch args s w = (if \<exists>st \<in> set sts. \<not> is_stopped st then Inr (1, s, w) else Inl (Blocked w))"
  by (simp add: lsh_launch_def wait_loop_iff)

lemma launch_Inr: "lsh_launch args s w = Inr (st, s', w') \<Longrightarrow> st = 1 \<and> s' = s"
  by (cases "spawn w args") (auto simp: lsh_launch_def split: if_splits)

lemma launch_Inl:
  assumes "lsh_launch args s w = Inl h"
  shows "h = Blocked w \<and> (\<exists>sts. spawn w args = Runs sts \<and> (\<forall>st \<in> set sts. is_stopped st))"
proof (cases "spawn w args")
  case ForkFails
  with assms show ?thesis by (simp add: lsh_launch_def)
next
  case (ExecFails k)
  with assms show ?thesis by (simp add: lsh_launch_def)
next
  case (Runs sts)
  with assms show ?thesis
    by (auto simp: lsh_launch_def wait_loop_iff split: if_splits)
qed

lemma not_builtin: "a0 \<notin> set builtin_str \<Longrightarrow> map_of (zip builtin_str builtin_func) a0 = None"
  by (simp add: map_of_eq_None_iff builtin_str_def builtin_func_def)

lemma execute_launch:
  assumes "shell_ok s" "a0 \<notin> new_name ` set (table s)" "a0 \<notin> set builtin_str"
  shows "lsh_execute (a0 # rest) s w = lsh_launch (a0 # rest) s w"
proof -
  from assms(2) have "find (\<lambda>a. new_name a = a0) (table s) = None"
    by (auto simp: find_None_iff)
  then have r: "resolve (table s) a0 = None"
    by (simp add: resolve_def)
  with assms(1) not_builtin [OF assms(3)] show ?thesis
    by (simp add: lsh_execute_dispatch dispatch_def)
qed

lemma execute_launch_continue:
  assumes "shell_ok s" "a0 \<notin> new_name ` set (table s)" "a0 \<notin> set builtin_str"
  shows "lsh_execute (a0 # rest) s w \<noteq> Inr (0, s', w')"
proof
  assume "lsh_execute (a0 # rest) s w = Inr (0, s', w')"
  with execute_launch [OF assms] have "lsh_launch (a0 # rest) s w = Inr (0, s', w')" by simp
  from launch_Inr [OF this] show False by simp
qed

subsection \<open>Reading and splitting a line\<close>

lemma alloc_Some:
  "alloc w = Some w' \<Longrightarrow> out w' = out w \<and> err w' = err w \<and> set (heap w') \<subseteq> set (heap w)"
  by (auto simp: alloc_def split: list.splits if_splits)

lemma alloc_ok: "allocs_ok w \<Longrightarrow> \<exists>w'. alloc w = Some w' \<and> out w' = out w \<and> err w' = err w \<and> allocs_ok w'"
  by (auto simp: alloc_def allocs_ok_def split: list.splits)

lemma alloc_error_out: "out (world_of (alloc_error w)) = out w"
  by (simp add: alloc_error_def world_of_def eprintf_def)

lemma read_loop_out:
  "case read_loop inp position bufsize buffer w of
     Inl h \<Rightarrow> out (world_of h) = out w
   | Inr (line, rest, w') \<Rightarrow> out w' = out w"
proof (induction inp position bufsize buffer w rule: read_loop.induct)
  case (1 position bufsize buffer w)
  show ?case by (simp add: world_of_def)
next
  case (2 c cs position bufsize buffer w)
  show ?case
  proof (cases "c = CHR 0x0A")
    case True
    then show ?thesis by simp
  next
    case nl: False
    show ?thesis
    proof (cases "bufsize \<le> Suc position")
      case False
      with nl 2(2) show ?thesis by simp
    next
      case True
      show ?thesis
      proof (cases "alloc w")
        case None
        with nl True show ?thesis by (simp add: alloc_error_out)
      next
        case (Some w1)
        from alloc_Some [OF Some] have "out w1 = out w" by simp
        with nl True Some 2(1) [OF nl True Some] show ?thesis
          by (simp split: sum.splits prod.splits)
      qed
    qed
  qed
qed

lemma read_loop_ok:
  "allocs_ok w \<Longrightarrow>
   case read_loop inp position bufsize buffer w of
     Inl h \<Rightarrow> (\<exists>w'. h = Exit EXIT_SUCCESS w' \<and> out w' = out w \<and> err w' = err w)
   | Inr (line, rest, w') \<Rightarrow> allocs_ok w'"
proof (induction inp position bufsize buffer w rule: read_loop.induct)
  case (1 position bufsize buffer w)
  show ?case by simp
next
  case (2 c cs position bufsize buffer w)
  show ?case
  proof (cases "c = CHR 0x0A")
    case True
    with 2(3) show ?thesis by simp
  next
    case nl: False
    show ?thesis
    proof (cases "bufsize \<le> Suc position")
      case False
      with nl 2(2) 2(3) show ?thesis by simp
    next
      case True
      from alloc_ok [OF 2(3)] obtain w1 where w1: "alloc w = Some w1" "out w1 = out w" "err w1 = err w" "allocs_ok w1"
        by blast
      with nl True 2(1) [OF nl True w1(1) w1(4)] show ?thesis
        by (simp split: sum.splits prod.splits)
    qed
  qed
qed

lemma read_loop_eof:
  "allocs_ok w \<Longrightarrow> CHR 0x0A \<notin> set inp \<Longrightarrow>
   \<exists>w'. read_loop inp position bufsize buffer w = Inl (Exit EXIT_SUCCESS w') \<and>
        out w' = out w \<and> err w' = err w"
proof (induction inp position bufsize buffer w rule: read_loop.induct)
  case (1 position bufsize buffer w)
  show ?case by simp
next
  case (2 c cs position bufsize buffer w)
  from 2(4) have nl: "c \<noteq> CHR 0x0A" and cs: "CHR 0x0A \<notin> set cs" by auto
  show ?case
  proof (cases "bufsize \<le> Suc position")
    case False
    with nl 2(2) [OF nl False 2(3) cs] show ?thesis by simp
  next
    case True
    from alloc_ok [OF 2(3)] obtain w1 where w1: "alloc w = Some w1" "out w1 = out w" "err w1 = err w" "allocs_ok w1"
      by blast
    with nl True 2(1) [OF nl True w1(1) w1(4) cs] show ?thesis
      by simp
  qed
qed

lemma lsh_read_line_out:
  "case lsh_read_line inp w of
     Inl h \<Rightarrow> out (world_of h) = out w
   | Inr (line, rest, w') \<Rightarrow> out w' = out w"
proof (cases "alloc w")
  case None
  then show ?thesis by (simp add: lsh_read_line_def alloc_error_out)
next
  case (Some w1)
  from alloc_Some [OF Some] have "out w1 = out w" by simp
  with Some read_loop_out [where inp = inp and position = 0 and bufsize = LSH_RL_BUFSIZE and buffer = "[]" and w = w1] show ?thesis
    by (simp add: lsh_read_line_def split: sum.splits prod.splits)
qed

lemma lsh_read_line_ok:
  "allocs_ok w \<Longrightarrow>
   case lsh_read_line inp w of
     Inl h \<Rightarrow> (\<exists>w'. h = Exit EXIT_SUCCESS w' \<and> out w' = out w \<and> err w' = err w)
   | Inr (line, rest, w') \<Rightarrow> allocs_ok w'"
proof -
  assume "allocs_ok w"
  from alloc_ok [OF this] obtain w1 where w1: "alloc w = Some w1" "out w1 = out w" "err w1 = err w" "allocs_ok w1"
    by blast
  with read_loop_ok [OF w1(4), where inp = inp and position = 0 and bufsize = LSH_RL_BUFSIZE and buffer = "[]"] show ?thesis
    by (simp add: lsh_read_line_def split: sum.splits prod.splits)
qed

lemma lsh_read_line_eof:
  "allocs_ok w \<Longrightarrow> CHR 0x0A \<notin> set inp \<Longrightarrow>
   \<exists>w'. lsh_read_line inp w = Inl (Exit EXIT_SUCCESS w') \<and> out w' = out w \<and> err w' = err w"
proof -
  assume a: "allocs_ok w" "CHR 0x0A \<notin> set inp"
  from alloc_ok [OF a(1)] obtain w1 where w1: "alloc w = Some w1" "out w1 = out w" "err w1 = err w" "allocs_ok w1"
    by blast
  with read_loop_eof [OF w1(4) a(2), where position = 0 and bufsize = LSH_RL_BUFSIZE and buffer = "[]"] show ?thesis
    by (simp add: lsh_read_line_def)
qed

lemma token_loop_out:
  "case token_loop toks position bufsize w of
     Inl h \<Rightarrow> out (world_of h) = out w
   | Inr w' \<Rightarrow> out w' = out w"
proof (induction toks position bufsize w rule: token_loop.induct)
  case (1 position bufsize w)
  show ?case by simp
next
  case (2 token toks position bufsize w)
  show ?case
  proof (cases "bufsize \<le> Suc position")
    case False
    with 2(2) show ?thesis by simp
  next
    case True
    show ?thesis
    proof (cases "alloc w")
      case None
      with True show ?thesis by (simp add: alloc_error_out)
    next
      case (Some w1)
      from alloc_Some [OF Some] have "out w1 = out w" by simp
      with True Some 2(1) [OF True Some] show ?thesis
        by (simp split: sum.splits)
    qed
  qed
qed

lemma token_loop_ok:
  "allocs_ok w \<Longrightarrow> \<exists>w'. token_loop toks position bufsize w = Inr w' \<and> allocs_ok w'"
proof (induction toks position bufsize w rule: token_loop.induct)
  case (1 position bufsize w)
  then show ?case by simp
next
  case (2 token toks position bufsize w)
  show ?case
  proof (cases "bufsize \<le> Suc position")
    case False
    with 2(2) [OF False 2(3)] show ?thesis by simp
  next
    case True
    from alloc_ok [OF 2(3)] obtain w1 where w1: "alloc w = Some w1" "allocs_ok w1"
      by blast
    with True 2(1) [OF True w1] show ?thesis by simp
  qed
qed

lemma lsh_split_line_out:
  "case lsh_split_line line w of
     Inl h \<Rightarrow> out (world_of h) = out w
   | Inr (args, w') \<Rightarrow> out w' = out w"
proof (cases "alloc w")
  case None
  then show ?thesis by (simp add: lsh_split_line_def alloc_error_out)
next
  case (Some w1)
  from alloc_Some [OF Some] have "out w1 = out w" by simp
  with Some token_loop_out [where toks = "strtok_all [] line" and position = 0 and bufsize = LSH_TOK_BUFSIZE and w = w1] show ?thesis
    by (simp add: lsh_split_line_def split: sum.splits)
qed

lemma lsh_split_line_ok:
  "allocs_ok w \<Longrightarrow> \<exists>w'. lsh_split_line line w = Inr (strtok_all [] line, w') \<and> allocs_ok w'"
proof -
  assume "allocs_ok w"
  from alloc_ok [OF this] obtain w1 where w1: "alloc w = Some w1" "allocs_ok w1"
    by blast
  from token_loop_ok [OF w1(2), where toks = "strtok_all [] line" and position = 0 and bufsize = LSH_TOK_BUFSIZE]
  obtain w2 where "token_loop (strtok_all [] line) 0 LSH_TOK_BUFSIZE w1 = Inr w2" "allocs_ok w2"
    by blast
  with w1 show ?thesis by (simp add: lsh_split_line_def)
qed

subsection \<open>The loop\<close>

lemma lsh_loop_read_halt:
  "lsh_read_line inp (printf (shellname s @ terminator s @ '' '') w) = Inl h \<Longrightarrow>
   lsh_loop inp s w = Inl h"
  by (subst lsh_loop.simps) simp

lemma lsh_loop_split_halt:
  "lsh_read_line inp (printf (shellname s @ terminator s @ '' '') w) = Inr (line, rest, w2) \<Longrightarrow>
   lsh_split_line line w2 = Inl h \<Longrightarrow> lsh_loop inp s w = Inl h"
  by (subst lsh_loop.simps) simp

lemma lsh_loop_execute_halt:
  "lsh_read_line inp (printf (shellname s @ terminator s @ '' '') w) = Inr (line, rest, w2) \<Longrightarrow>
   lsh_split_line line w2 = Inr (args, w3) \<Longrightarrow> lsh_execute args s w3 = Inl h \<Longrightarrow>
   lsh_loop inp s w = Inl h"
  by (subst lsh_loop.simps) simp

lemma lsh_loop_stop:
  "lsh_read_line inp (printf (shellname s @ terminator s @ '' '') w) = Inr (line, rest, w2) \<Longrightarrow>
   lsh_split_line line w2 = Inr (args, w3) \<Longrightarrow> lsh_execute args s w3 = Inr (0, s', w4) \<Longrightarrow>
   lsh_loop inp s w = Inr (s', w4)"
  by (subst lsh_loop.simps) simp

lemma lsh_loop_continue:
  "lsh_read_line inp (printf (shellname s @ terminator s @ '' '') w) = Inr (line, rest, w2) \<Longrightarrow>
   lsh_split_line line w2 = Inr (args, w3) \<Longrightarrow> lsh_execute args s w3 = Inr (status, s', w4) \<Longrightarrow>
   status \<noteq> 0 \<Longrightarrow> lsh_loop inp s w = lsh_loop rest s' w4"
  by (subst lsh_loop.simps) simp

lemma allocs_ok_printf: "allocs_ok (printf m w) = allocs_ok w"
  by (simp add: allocs_ok_def printf_def)

lemma lsh_loop_exit_code:
  "allocs_ok w \<Longrightarrow> lsh_loop inp s w = Inl (Exit c w') \<Longrightarrow> c = EXIT_SUCCESS"
proof (induction inp s w rule: lsh_loop.induct)
  case (1 inp s w)
  let ?w1 = "printf (shellname s @ terminator s @ '' '') w"
  from 1(2) have ok1: "allocs_ok ?w1" by (simp add: allocs_ok_printf)
  show ?case
  proof (cases "lsh_read_line inp ?w1")
    case (Inl h)
    with lsh_read_line_ok [OF ok1, where inp = inp] obtain w'' where "h = Exit EXIT_SUCCESS w''"
      by auto
    with lsh_loop_read_halt [OF Inl] 1(3) show ?thesis by simp
  next
    case (Inr x)
    then obtain line rest w2 where r: "lsh_read_line inp ?w1 = Inr (line, rest, w2)"
      by (cases x) auto
    with lsh_read_line_ok [OF ok1, where inp = inp] have ok2: "allocs_ok w2" by simp
    from lsh_split_line_ok [OF ok2, where line = line] obtain args w3 where
      sp: "lsh_split_line line w2 = Inr (args, w3)" and ok3: "allocs_ok w3"
      by blast
    show ?thesis
    proof (cases "lsh_execute args s w3")
      case (Inl h)
      with lsh_execute_frame [where args = args and s = s and w = w3] have "\<not> is_exit h" by simp
      moreover from lsh_loop_execute_halt [OF r sp Inl] 1(3) have "h = Exit c w'" by simp
      ultimately show ?thesis by (simp add: is_exit_def)
    next
      case (Inr y)
      then obtain status s' w4 where ex: "lsh_execute args s w3 = Inr (status, s', w4)"
        by (cases y) auto
      with lsh_execute_frame [where args = args and s = s and w = w3] ok3 have ok4: "allocs_ok w4"
        by (simp add: grows_def allocs_ok_def)
      show ?thesis
      proof (cases "status = 0")
        case True
        with lsh_loop_stop [OF r sp] ex 1(3) show ?thesis by simp
      next
        case False
        from lsh_loop_continue [OF r sp ex False] 1(3)
        have "lsh_loop rest s' w4 = Inl (Exit c w')" by simp
        with 1(1) [OF r refl refl sp refl ex refl refl False ok4] show ?thesis .
      qed
    qed
  qed
qed

lemma end_world_Inl: "end_world (Inl h) = world_of h"
  by (simp add: end_world_def)

lemma lsh_loop_prompt:
  "prefix (out w @ shellname s @ terminator s @ '' '') (out (end_world (lsh_loop inp s w)))"
proof (induction inp s w rule: lsh_loop.induct)
  case (1 inp s w)
  let ?w1 = "printf (shellname s @ terminator s @ '' '') w"
  have o1: "out ?w1 = out w @ shellname s @ terminator s @ '' ''" by (simp add: printf_def)
  show ?case
  proof (cases "lsh_read_line inp ?w1")
    case (Inl h)
    with lsh_read_line_out [where inp = inp and w = ?w1] have "out (world_of h) = out ?w1" by simp
    with lsh_loop_read_halt [OF Inl] o1 show ?thesis by (simp add: end_world_Inl)
  next
    case (Inr x)
    then obtain line rest w2 where r: "lsh_read_line inp ?w1 = Inr (line, rest, w2)"
      by (cases x) auto
    with lsh_read_line_out [where inp = inp and w = ?w1] have o2: "out w2 = out ?w1" by simp
    show ?thesis
    proof (cases "lsh_split_line line w2")
      case (Inl h)
      with lsh_split_line_out [where line = line and w = w2] have "out (world_of h) = out w2" by simp
      with lsh_loop_split_halt [OF r Inl] o1 o2 show ?thesis by (simp add: end_world_Inl)
    next
      case (Inr y)
      then obtain args w3 where sp: "lsh_split_line line w2 = Inr (args, w3)"
        by (cases y) auto
      with lsh_split_line_out [where line = line and w = w2] have o3: "out w3 = out w2" by simp
      show ?thesis
      proof (cases "lsh_execute args s w3")
        case (Inl h)
        with lsh_execute_frame [where args = args and s = s and w = w3] have "prefix (out w3) (out (world_of h))"
          by (simp add: grows_def)
        with lsh_loop_execute_halt [OF r sp Inl] o1 o2 o3 show ?thesis by (simp add: end_world_Inl)
      next
        case (Inr z)
        then obtain status s' w4 where ex: "lsh_execute args s w3 = Inr (status, s', w4)"
          by (cases z) auto
        with lsh_execute_frame [where args = args and s = s and w = w3] have p4: "prefix (out w3) (out w4)"
          by (simp add: grows_def)
        show ?thesis
        proof (cases "status = 0")
          case True
          with lsh_loop_stop [OF r sp] ex have "lsh_loop inp s w = Inr (s', w4)" by simp
          with p4 o1 o2 o3 show ?thesis by (simp add: end_world_def)
        next
          case False
          from 1 [OF r refl refl sp refl ex refl refl False]
          have "prefix (out w4 @ shellname s' @ terminator s' @ '' '') (out (end_world (lsh_loop rest s' w4)))" .
          then have "prefix (out w4) (out (end_world (lsh_loop rest s' w4)))"
            by (rule append_prefixD)
          with p4 have "prefix (out w3) (out (end_world (lsh_loop rest s' w4)))"
            by (rule prefix_order.trans)
          with lsh_loop_continue [OF r sp ex False] o1 o2 o3 show ?thesis by simp
        qed
      qed
    qed
  qed
qed

lemma lsh_loop_eof:
  assumes "allocs_ok w" and "CHR 0x0A \<notin> set inp"
  shows "\<exists>w'. lsh_loop inp s w = Inl (Exit EXIT_SUCCESS w') \<and>
              out w' = out w @ shellname s @ terminator s @ '' '' \<and> err w' = err w"
proof -
  let ?w1 = "printf (shellname s @ terminator s @ '' '') w"
  from assms(1) have "allocs_ok ?w1" by (simp add: allocs_ok_printf)
  from lsh_read_line_eof [OF this assms(2)] obtain w' where
    "lsh_read_line inp ?w1 = Inl (Exit EXIT_SUCCESS w')" "out w' = out ?w1" "err w' = err ?w1"
    by blast
  with lsh_loop_read_halt [of inp s w "Exit EXIT_SUCCESS w'"] show ?thesis
    by (simp add: printf_def)
qed

lemma execute_stop_builtin:
  assumes "shell_ok s" and "t = ''exit'' \<or> t = ''STOP''" and "t \<notin> new_name ` set (table s)"
  shows "lsh_execute (t # rest) s w = Inr (0, s, w)"
proof -
  from assms(3) have "find (\<lambda>a. new_name a = t) (table s) = None"
    by (auto simp: find_None_iff)
  then have r: "resolve (table s) t = None"
    by (simp add: resolve_def)
  from assms(2) have "map_of (zip builtin_str builtin_func) t = Some lsh_exit \<or>
      map_of (zip builtin_str builtin_func) t = Some lsh_stop"
    by (auto simp: builtin_str_def builtin_func_def)
  with assms(1) r show ?thesis
    by (auto simp: lsh_execute_dispatch dispatch_def lsh_exit_def lsh_stop_def)
qed

lemma main_exit_code: "allocs_ok w \<Longrightarrow> main inp w = Exit c w' \<Longrightarrow> c = 0"
proof -
  assume ok: "allocs_ok w" and m: "main inp w = Exit c w'"
  show ?thesis
  proof (cases "lsh_loop inp init_shell w")
    case (Inl h)
    with m have "lsh_loop inp init_shell w = Inl (Exit c w')" by (simp add: main_def)
    from lsh_loop_exit_code [OF ok this] show ?thesis by (simp add: EXIT_SUCCESS_def)
  next
    case (Inr x)
    with m show ?thesis by (cases x) (simp add: main_def EXIT_SUCCESS_def)
  qed
qed

subsection \<open>The loader\<close>

lemma scan_s_None: "scan_s inp = (None, r) \<Longrightarrow> r = [] \<and> scan_tokens inp = []"
  by (subst scan_tokens.simps) (auto simp: scan_s_def Let_def split: if_splits)

lemma scan_s_Some: "scan_s inp = (Some t, r) \<Longrightarrow> scan_tokens inp = t # scan_tokens r"
  by (subst scan_tokens.simps) simp

lemma fscanf_loop_spec:
  "fscanf_loop inp arr cnt =
     (if \<exists>t \<in> set (scan_tokens inp). NAME_BUF \<le> length t then None
      else Some (fst (loaded inp (arr, cnt)), snd (loaded inp (arr, cnt)), []))"
proof (induction inp arr cnt rule: fscanf_loop.induct)
  case (1 inp arr cnt)
  obtain o1 r1 where s1: "scan_s inp = (o1, r1)" by (cases "scan_s inp")
  show ?case
  proof (cases o1)
    case None
    with s1 scan_s_None [of inp r1] have "r1 = []" "scan_tokens inp = []" by simp_all
    with s1 None show ?thesis
      by (subst fscanf_loop.simps) (simp add: loaded_def)
  next
    case (Some t1)
    with s1 have s1': "scan_s inp = (Some t1, r1)" by simp
    from scan_s_Some [OF s1'] have tk1: "scan_tokens inp = t1 # scan_tokens r1" .
    show ?thesis
    proof (cases "NAME_BUF \<le> length t1")
      case True
      with s1' tk1 show ?thesis
        by (subst fscanf_loop.simps) simp
    next
      case short1: False
      obtain o2 r2 where s2: "scan_s r1 = (o2, r2)" by (cases "scan_s r1")
      show ?thesis
      proof (cases o2)
        case None
        with s2 scan_s_None [of r1 r2] have "r2 = []" "scan_tokens r1 = []" by simp_all
        with s1' s2 None short1 tk1 show ?thesis
          by (subst fscanf_loop.simps) (simp add: loaded_def)
      next
        case (Some t2)
        with s2 have s2': "scan_s r1 = (Some t2, r2)" by simp
        from scan_s_Some [OF s2'] have tk2: "scan_tokens r1 = t2 # scan_tokens r2" .
        show ?thesis
        proof (cases "NAME_BUF \<le> length t2")
          case True
          with s1' s2' short1 tk1 tk2 show ?thesis
            by (subst fscanf_loop.simps) simp
        next
          case short2: False
          let ?a = "\<lparr>new_name = c_str t1, old_name = c_str t2\<rparr>"
          have ld: "loaded inp (arr, cnt) = loaded r2 (define_slot (arr, cnt) ?a)"
            by (simp add: loaded_def tk1 tk2 mk_alias_def)
          show ?thesis
          proof (cases "cnt < MAX_ALIASES")
            case True
            from 1(1) [OF s1' [symmetric] refl short1 s2' [symmetric] refl short2 True]
            have "fscanf_loop r2 (arr[cnt := ?a]) (Suc cnt) =
                (if \<exists>t \<in> set (scan_tokens r2). NAME_BUF \<le> length t then None
                 else Some (fst (loaded r2 (arr[cnt := ?a], Suc cnt)),
                            snd (loaded r2 (arr[cnt := ?a], Suc cnt)), []))" .
            moreover from True have "define_slot (arr, cnt) ?a = (arr[cnt := ?a], Suc cnt)"
              by (simp add: define_slot_def)
            moreover from s1' s2' short1 short2 True
            have "fscanf_loop inp arr cnt = fscanf_loop r2 (arr[cnt := ?a]) (Suc cnt)"
              by (subst fscanf_loop.simps) simp
            ultimately show ?thesis using short1 short2
              by (simp add: ld tk1 tk2)
          next
            case False
            from 1(2) [OF s1' [symmetric] refl short1 s2' [symmetric] refl short2 False]
            have "fscanf_loop r2 arr cnt =
                (if \<exists>t \<in> set (scan_tokens r2). NAME_BUF \<le> length t then None
                 else Some (fst (loaded r2 (arr, cnt)), snd (loaded r2 (arr, cnt)), []))" .
            moreover from False have "define_slot (arr, cnt) ?a = (arr, cnt)"
              by (simp add: define_slot_def)
            moreover from s1' s2' short1 short2 False
            have "fscanf_loop inp arr cnt = fscanf_loop r2 arr cnt"
              by (subst fscanf_loop.simps) simp
            ultimately show ?thesis using short1 short2
              by (simp add: ld tk1 tk2)
          qed
        qed
      qed
    qed
  qed
qed

lemma define_slot_ok:
  "length (fst ac) = MAX_ALIASES \<Longrightarrow> snd ac \<le> MAX_ALIASES \<Longrightarrow>
   length (fst (define_slot ac a)) = MAX_ALIASES \<and> snd (define_slot ac a) \<le> MAX_ALIASES"
  by (simp add: define_slot_def)

lemma foldl_define_slot_ok:
  "length (fst ac) = MAX_ALIASES \<Longrightarrow> snd ac \<le> MAX_ALIASES \<Longrightarrow>
   length (fst (foldl define_slot ac as)) = MAX_ALIASES \<and> snd (foldl define_slot ac as) \<le> MAX_ALIASES"
proof (induction as arbitrary: ac)
  case Nil
  then show ?case by simp
next
  case (Cons a as)
  from define_slot_ok [OF Cons.prems, of a] Cons.IH [of "define_slot ac a"] show ?case
    by simp
qed



lemma define_slot_table:
  "length (fst ac) = MAX_ALIASES \<Longrightarrow> snd ac \<le> MAX_ALIASES \<Longrightarrow>
   take (snd (define_slot ac a)) (fst (define_slot ac a)) =
     take MAX_ALIASES (take (snd ac) (fst ac) @ [a])"
  by (cases "snd ac < MAX_ALIASES") (simp_all add: define_slot_def take_Suc_conv_app_nth)

lemma foldl_define_slot_table:
  "length (fst ac) = MAX_ALIASES \<Longrightarrow> snd ac \<le> MAX_ALIASES \<Longrightarrow>
   take (snd (foldl define_slot ac as)) (fst (foldl define_slot ac as)) =
     take MAX_ALIASES (take (snd ac) (fst ac) @ as)"
proof (induction as arbitrary: ac)
  case Nil
  then show ?case by simp
next
  case (Cons a as)
  let ?ac = "define_slot ac a"
  from define_slot_ok [OF Cons.prems, of a]
  have ok: "length (fst ?ac) = MAX_ALIASES" "snd ?ac \<le> MAX_ALIASES" by simp_all
  from Cons.IH [OF ok] have "take (snd (foldl define_slot ?ac as)) (fst (foldl define_slot ?ac as)) =
      take MAX_ALIASES (take (snd ?ac) (fst ?ac) @ as)" .
  also have "\<dots> = take MAX_ALIASES (take MAX_ALIASES (take (snd ac) (fst ac) @ [a]) @ as)"
    by (simp only: define_slot_table [OF Cons.prems])
  also have "\<dots> = take MAX_ALIASES (take (snd ac) (fst ac) @ a # as)"
  proof (cases "snd ac < MAX_ALIASES")
    case True
    with Cons.prems show ?thesis by simp
  next
    case False
    with Cons.prems have "snd ac = MAX_ALIASES" by simp
    with Cons.prems show ?thesis by simp
  qed
  finally show ?case by simp
qed

lemma newname_define:
  "newname (a0 # a1 # a2 # rest) s w =
     Inr (1, s\<lparr>aliases := fst (define_slot (aliases s, alias_count s) \<lparr>new_name = a1, old_name = a2\<rparr>),
               alias_count := snd (define_slot (aliases s, alias_count s) \<lparr>new_name = a1, old_name = a2\<rparr>)\<rparr>,
          if alias_count s < MAX_ALIASES then w
          else eprintf (''Maximum number of aliases reached.'' @ nl) w)"
  by (simp add: newname_def arg_def define_slot_def)

lemma newname_full:
  "alias_count s = MAX_ALIASES \<Longrightarrow>
   newname (a0 # a1 # a2 # rest) s w = Inr (1, s, eprintf (''Maximum number of aliases reached.'' @ nl) w)"
  by (simp add: newname_def arg_def)

lemma readnewnames_spec:
  "files w path = Some content \<Longrightarrow>
   readnewnames (a0 # path # rest) s w =
     (if \<exists>t \<in> set (scan_tokens content). NAME_BUF \<le> length t then Inl (Overrun w)
      else Inr (1, s\<lparr>aliases := fst (loaded content (aliases s, alias_count s)),
                     alias_count := snd (loaded content (aliases s, alias_count s))\<rparr>, w))"
  by (simp add: readnewnames_def arg_def fscanf_loop_spec)

lemma newname_ok: "shell_ok s \<Longrightarrow> newname args s w = Inr (st, s', w') \<Longrightarrow> shell_ok s'"
proof -
  assume ok: "shell_ok s" and r: "newname args s w = Inr (st, s', w')"
  show ?thesis
  proof (cases "arg args 1")
    case None
    with r ok show ?thesis by (simp add: newname_def)
  next
    case a1: (Some a1)
    show ?thesis
    proof (cases "arg args 2")
      case None
      show ?thesis
      proof (cases "delete_loop a1 0 s")
        case None
        with r ok a1 \<open>arg args 2 = None\<close> show ?thesis by (simp add: newname_def)
      next
        case (Some s1)
        with r a1 \<open>arg args 2 = None\<close> have "s' = s1" by (simp add: newname_def)
        with delete_loop_frame [OF Some] ok show ?thesis by (auto simp: shell_ok_def)
      qed
    next
      case (Some a2)
      with r ok a1 show ?thesis
        by (auto simp: newname_def shell_ok_def split: if_splits)
    qed
  qed
qed

lemma readnewnames_ok: "shell_ok s \<Longrightarrow> readnewnames args s w = Inr (st, s', w') \<Longrightarrow> shell_ok s'"
proof -
  assume ok: "shell_ok s" and r: "readnewnames args s w = Inr (st, s', w')"
  show ?thesis
  proof (cases "arg args 1")
    case None
    with r ok show ?thesis by (simp add: readnewnames_def)
  next
    case (Some path)
    show ?thesis
    proof (cases "files w path")
      case None
      with r ok Some show ?thesis by (simp add: readnewnames_def)
    next
      case c: (Some content)
      let ?l = "loaded content (aliases s, alias_count s)"
      from r Some c have "s' = s\<lparr>aliases := fst ?l, alias_count := snd ?l\<rparr>"
        by (simp add: readnewnames_def fscanf_loop_spec split: if_splits)
      moreover from ok have "length (fst ?l) = MAX_ALIASES \<and> snd ?l \<le> MAX_ALIASES"
        unfolding loaded_def by (intro foldl_define_slot_ok) (simp_all add: shell_ok_def)
      ultimately show ?thesis by (simp add: shell_ok_def)
    qed
  qed
qed

lemma run_ops_ok: "shell_ok s \<Longrightarrow> run_ops ops s w = Inr (s', w') \<Longrightarrow> shell_ok s'"
proof (induction ops s w rule: run_ops.induct)
  case (1 s w)
  then show ?case by simp
next
  case (2 n t ops s w)
  from 2(3) obtain st s1 w1 where n: "newname [''newname'', n, t] s w = Inr (st, s1, w1)"
      and r: "run_ops ops s1 w1 = Inr (s', w')"
    by (auto split: sum.splits)
  from newname_ok [OF 2(2) n] have "shell_ok s1" .
  with 2(1) [OF n refl refl] r show ?case by simp
next
  case (3 path ops s w)
  from 3(3) obtain st s1 w1 where n: "readnewnames [''readnewnames'', path] s w = Inr (st, s1, w1)"
      and r: "run_ops ops s1 w1 = Inr (s', w')"
    by (auto split: sum.splits)
  from readnewnames_ok [OF 3(2) n] have "shell_ok s1" .
  with 3(1) [OF n refl refl] r show ?case by simp
qed

lemma table_length: "shell_ok s \<Longrightarrow> length (table s) \<le> MAX_ALIASES"
  by (simp add: table_def shell_ok_def)

lemma shell_ok_init: "shell_ok init_shell"
  by (simp add: shell_ok_def init_shell_def)


lemma shell_ok_full: "shell_ok full_shell"
  by (simp add: full_shell_def shell_ok_mk_shell)

lemma alias_count_full: "alias_count full_shell = MAX_ALIASES"
  by (simp add: full_shell_def mk_shell_def)

subsection \<open>The alias file\<close>

lemma save_loop_saved:
  "cnt \<le> length arr \<Longrightarrow> save_loop arr cnt i acc = acc @ saved (drop i (take cnt arr))"
proof (induction arr cnt i acc rule: save_loop.induct)
  case (1 arr cnt i acc)
  show ?case
  proof (cases "i < cnt")
    case True
    let ?acc = "acc @ new_name (arr ! i) @ '' '' @ old_name (arr ! i) @ nl"
    from True 1(2) have d: "drop i (take cnt arr) = arr ! i # drop (Suc i) (take cnt arr)"
      by (simp add: Cons_nth_drop_Suc [symmetric])
    from True have "save_loop arr cnt i acc = save_loop arr cnt (Suc i) ?acc"
      by (subst save_loop.simps) simp
    also from 1(1) [OF True 1(2)] have "\<dots> = ?acc @ saved (drop (Suc i) (take cnt arr))" .
    finally show ?thesis
      by (simp add: d saved_def alias_line_def)
  next
    case False
    then have "save_loop arr cnt i acc = acc"
      by (subst save_loop.simps) simp
    with False show ?thesis by (simp add: saved_def)
  qed
qed

lemma savenewnames_saved:
  "shell_ok s \<Longrightarrow> \<not> wr_denied w path \<Longrightarrow>
   savenewnames (a0 # path # rest) s w = Inr (1, s, w\<lparr>files := (files w)(path \<mapsto> saved (table s))\<rparr>)"
  by (simp add: savenewnames_def arg_def save_loop_saved shell_ok_def table_def)

lemma scan_s_skip: "isspace c \<Longrightarrow> scan_s (c # inp) = scan_s inp"
  by (simp add: scan_s_def)

lemma scan_s_token:
  assumes "n \<noteq> []" and "\<forall>x \<in> set n. \<not> isspace x" and "isspace c"
  shows "scan_s (n @ c # inp) = (Some n, c # inp)"
proof -
  from assms(1,2) have "dropWhile isspace (n @ c # inp) = n @ c # inp"
    by (cases n) auto
  moreover from assms(2,3) have "takeWhile (\<lambda>x. \<not> isspace x) (n @ c # inp) = n"
    by (simp add: takeWhile_append2)
  moreover from assms(2,3) have "dropWhile (\<lambda>x. \<not> isspace x) (n @ c # inp) = c # inp"
    by (simp add: dropWhile_append2)
  ultimately show ?thesis using assms(1)
    by (simp add: scan_s_def)
qed

lemma scan_tokens_skip: "isspace c \<Longrightarrow> scan_tokens (c # inp) = scan_tokens inp"
  by (subst scan_tokens.simps, subst (2) scan_tokens.simps) (simp add: scan_s_skip)

lemma scan_tokens_token:
  assumes "n \<noteq> []" and "\<forall>x \<in> set n. \<not> isspace x" and "isspace c"
  shows "scan_tokens (n @ c # inp) = n # scan_tokens inp"
proof -
  from scan_s_Some [OF scan_s_token [OF assms]] have "scan_tokens (n @ c # inp) = n # scan_tokens (c # inp)" .
  with scan_tokens_skip [OF assms(3)] show ?thesis by simp
qed

lemma scan_tokens_line:
  assumes "new_name a \<noteq> []" "\<forall>x \<in> set (new_name a). \<not> isspace x"
    and "old_name a \<noteq> []" "\<forall>x \<in> set (old_name a). \<not> isspace x"
  shows "scan_tokens (alias_line a @ inp) = new_name a # old_name a # scan_tokens inp"
proof -
  have sp: "isspace (CHR 0x20)" "isspace (CHR 0x0A)" by (simp_all add: isspace_def)
  have "alias_line a @ inp = new_name a @ CHR 0x20 # (old_name a @ CHR 0x0A # inp)"
    by (simp add: alias_line_def nl_def)
  then show ?thesis
    by (simp only: scan_tokens_token [OF assms(1,2) sp(1)] scan_tokens_token [OF assms(3,4) sp(2)])
qed

lemma scan_tokens_Nil: "scan_tokens [] = []"
  by (subst scan_tokens.simps) (simp add: scan_s_def)

lemma name_ok_D:
  "name_ok n \<Longrightarrow> n \<noteq> [] \<and> (\<forall>x \<in> set n. \<not> isspace x) \<and> c_str n = n \<and> length n < NAME_BUF"
  by (auto simp: name_ok_def list_all_iff c_str_def takeWhile_eq_all_conv)

lemma scan_tokens_saved:
  "list_all alias_ok tbl \<Longrightarrow>
   scan_tokens (saved tbl) = concat (map (\<lambda>a. [new_name a, old_name a]) tbl)"
proof (induction tbl)
  case Nil
  show ?case by (simp add: saved_def scan_tokens_Nil)
next
  case (Cons a tbl)
  from Cons.prems have ao: "alias_ok a" and t: "list_all alias_ok tbl"
    by simp_all
  from ao have a: "name_ok (new_name a)" "name_ok (old_name a)"
    by (simp_all add: alias_ok_def)
  from name_ok_D [OF a(1)] name_ok_D [OF a(2)]
  have "scan_tokens (alias_line a @ saved tbl) = new_name a # old_name a # scan_tokens (saved tbl)"
    by (intro scan_tokens_line) simp_all
  with Cons.IH [OF t] show ?case by (simp add: saved_def)
qed

lemma pairs_of_concat:
  "pairs_of (concat (map (\<lambda>a. [new_name a, old_name a]) tbl)) = map (\<lambda>a. (new_name a, old_name a)) tbl"
  by (induction tbl) simp_all

lemma mk_alias_saved:
  "list_all alias_ok tbl \<Longrightarrow> map mk_alias (map (\<lambda>a. (new_name a, old_name a)) tbl) = tbl"
proof (induction tbl)
  case Nil
  show ?case by simp
next
  case (Cons a tbl)
  from Cons.prems have ao: "alias_ok a" and t: "list_all alias_ok tbl"
    by simp_all
  from ao have "name_ok (new_name a)" "name_ok (old_name a)"
    by (simp_all add: alias_ok_def)
  with name_ok_D [of "new_name a"] name_ok_D [of "old_name a"] have "mk_alias (new_name a, old_name a) = a"
    by (simp add: mk_alias_def)
  with Cons.IH [OF t] show ?case by simp
qed

lemma saved_tokens_short:
  "list_all alias_ok tbl \<Longrightarrow> \<not> (\<exists>t \<in> set (scan_tokens (saved tbl)). NAME_BUF \<le> length t)"
proof -
  assume a: "list_all alias_ok tbl"
  then have "\<forall>t \<in> set (concat (map (\<lambda>a. [new_name a, old_name a]) tbl)). length t < NAME_BUF"
    by (auto simp: list_all_iff alias_ok_def name_ok_def)
  with scan_tokens_saved [OF a] show ?thesis by (auto simp: not_le)
qed


lemma loaded_saved:
  assumes "shell_ok s" and "list_all alias_ok (table s)" and "shell_ok s0" and "alias_count s0 = 0"
  shows "take (snd (loaded (saved (table s)) (aliases s0, alias_count s0)))
           (fst (loaded (saved (table s)) (aliases s0, alias_count s0))) = table s"
proof -
  have "map mk_alias (pairs_of (scan_tokens (saved (table s)))) = table s"
    by (simp only: scan_tokens_saved [OF assms(2)] pairs_of_concat mk_alias_saved [OF assms(2)])
  moreover from assms(3,4) have "take (snd (foldl define_slot (aliases s0, alias_count s0) (table s)))
      (fst (foldl define_slot (aliases s0, alias_count s0) (table s))) =
      take MAX_ALIASES (take (alias_count s0) (aliases s0) @ table s)"
    using foldl_define_slot_table [of "(aliases s0, alias_count s0)" "table s"]
    by (simp add: shell_ok_def)
  moreover from assms(1) have "length (table s) \<le> MAX_ALIASES" by (rule table_length)
  ultimately show ?thesis using assms(4)
    by (simp add: loaded_def)
qed

lemma readnewnames_long_token:
  assumes "files w path = Some (n @ CHR 0x20 # inp)" and "n \<noteq> []" and "\<forall>x \<in> set n. \<not> isspace x"
    and "NAME_BUF \<le> length n"
  shows "readnewnames (a0 # path # rest) s w = Inl (Overrun w)"
proof -
  have "isspace (CHR 0x20)" by (simp add: isspace_def)
  from scan_tokens_token [OF assms(2,3) this] have "n \<in> set (scan_tokens (n @ CHR 0x20 # inp))"
    by simp
  with assms(4) have "\<exists>t \<in> set (scan_tokens (n @ CHR 0x20 # inp)). NAME_BUF \<le> length t"
    by blast
  with readnewnames_spec [OF assms(1), of a0 rest s] show ?thesis by simp
qed

text \<open>
  Names that are non-empty, free of white space and shorter than the loader's buffers
  do come back: saving such a table and loading the file into an empty table gives the
  same pairs in the same order.
\<close>

lemma roundtrip_short_names:
  assumes "shell_ok s" and "list_all alias_ok (table s)" and "\<not> wr_denied w path"
    and "shell_ok s0" and "alias_count s0 = 0"
  shows "savenewnames (a0 # path # rest) s w =
           Inr (1, s, w\<lparr>files := (files w)(path \<mapsto> saved (table s))\<rparr>) \<and>
         (\<exists>s'. readnewnames (b0 # path # rest') s0 (w\<lparr>files := (files w)(path \<mapsto> saved (table s))\<rparr>) =
                 Inr (1, s', w\<lparr>files := (files w)(path \<mapsto> saved (table s))\<rparr>) \<and>
               table s' = table s)"
proof
  from assms(1,3) show "savenewnames (a0 # path # rest) s w =
      Inr (1, s, w\<lparr>files := (files w)(path \<mapsto> saved (table s))\<rparr>)"
    by (rule savenewnames_saved)
next
  let ?w1 = "w\<lparr>files := (files w)(path \<mapsto> saved (table s))\<rparr>"
  let ?l = "loaded (saved (table s)) (aliases s0, alias_count s0)"
  let ?s' = "s0\<lparr>aliases := fst ?l, alias_count := snd ?l\<rparr>"
  have f: "files ?w1 path = Some (saved (table s))" by simp
  from readnewnames_spec [OF f, of b0 rest' s0] saved_tokens_short [OF assms(2)]
  have "readnewnames (b0 # path # rest') s0 ?w1 = Inr (1, ?s', ?w1)" by simp
  moreover from loaded_saved [OF assms(1,2,4,5)] have "table ?s' = table s"
    by (simp add: table_def)
  ultimately show "\<exists>s'. readnewnames (b0 # path # rest') s0 ?w1 = Inr (1, s', ?w1) \<and> table s' = table s"
    by blast
qed

subsection \<open>The invariant of the array\<close>

text \<open>
  \<open>shell_ok\<close> holds of the initial state and every command keeps it, so it holds
  whenever \<^verbatim>\<open>lsh_execute\<close> is called.
\<close>

lemma keeps_ok_simple:
  "keeps_ok lsh_cd" "keeps_ok lsh_help" "keeps_ok lsh_exit" "keeps_ok lsh_stop"
  "keeps_ok setshellname" "keeps_ok setterminator" "keeps_ok listnewnames" "keeps_ok savenewnames"
  by (auto simp: keeps_ok_def lsh_cd_def lsh_help_def lsh_exit_def lsh_stop_def setshellname_def
      setterminator_def listnewnames_def savenewnames_def shell_ok_def split: option.splits if_splits)

lemma keeps_ok_newname: "keeps_ok newname"
  unfolding keeps_ok_def using newname_ok by blast

lemma keeps_ok_readnewnames: "keeps_ok readnewnames"
  unfolding keeps_ok_def using readnewnames_ok by blast

lemma keeps_ok_launch: "keeps_ok lsh_launch"
  unfolding keeps_ok_def using launch_Inr by blast

lemma keeps_ok_builtin: "f \<in> set builtin_func \<Longrightarrow> keeps_ok f"
proof -
  assume "f \<in> set builtin_func"
  then consider "f = lsh_cd" | "f = lsh_help" | "f = lsh_exit" | "f = setshellname"
    | "f = setterminator" | "f = newname" | "f = listnewnames" | "f = savenewnames"
    | "f = readnewnames" | "f = lsh_stop"
    unfolding builtin_func_def set_simps insert_iff empty_iff by blast
  then show ?thesis
    by cases (simp_all only: keeps_ok_simple keeps_ok_newname keeps_ok_readnewnames)
qed

lemma lsh_execute_ok:
  assumes "shell_ok s" and "lsh_execute args s w = Inr (st, s', w')"
  shows "shell_ok s'"
proof (cases args)
  case Nil
  with assms show ?thesis by (simp add: lsh_execute_def)
next
  case (Cons a0 rest)
  let ?args = "alias_loop a0 (aliases s) (alias_count s) 0 # rest"
  show ?thesis
  proof (cases "builtin_loop (hd ?args) 0")
    case None
    with Cons assms(2) have "lsh_launch ?args s w = Inr (st, s', w')"
      by (simp add: lsh_execute_def)
    with keeps_ok_launch assms(1) show ?thesis
      unfolding keeps_ok_def by blast
  next
    case (Some i)
    then have "i < length builtin_func"
      using builtin_loop_lt [of "hd ?args" 0 i]
      by (simp add: lsh_num_builtins_def builtin_str_def builtin_func_def)
    then have "keeps_ok (builtin_func ! i)"
      by (intro keeps_ok_builtin nth_mem)
    moreover from Some Cons assms(2) have "(builtin_func ! i) ?args s w = Inr (st, s', w')"
      by (simp add: lsh_execute_def)
    ultimately show ?thesis using assms(1)
      unfolding keeps_ok_def by blast
  qed
qed

section \<open>Claims\<close>

text \<open>
  C10. \<^verbatim>\<open>listnewnames\<close> and \<^verbatim>\<open>savenewnames\<close> are read-only on the shell state:
  for every shell state (array, counter, prompt name, terminator), every argument list
  and every environment, each returns 1 (continue) with the shell state it was given.
\<close>

theorem C10_list_save_frame:
  "(\<exists>w'. listnewnames args s w = Inr (1, s, w')) \<and> (\<exists>w'. savenewnames args s w = Inr (1, s, w'))"
  by (simp add: listnewnames_def savenewnames_def split: option.split)

text \<open>
  C7. \<^verbatim>\<open>newname\<close> with exactly one argument that is the \<open>new_name\<close> of no table
  entry writes "Alias not found: <name>" to the error stream, returns 1 and leaves the
  shell state, so the table and its length, as it was.
\<close>

theorem C7_newname_not_found:
  assumes "shell_ok s" and "a1 \<notin> new_name ` set (table s)"
  shows "newname [a0, a1] s w = Inr (1, s, eprintf (''Alias not found: '' @ a1 @ nl) w)"
proof -
  from assms(1) have "alias_count s \<le> length (aliases s)"
    by (simp add: shell_ok_def)
  then have "map_option table (delete_loop a1 0 s) = map_option ((@) []) (remove_first a1 (table s))"
    using delete_loop_table [of s 0 a1] by simp
  moreover from assms(2) have "remove_first a1 (table s) = None"
    by (simp add: remove_first_None)
  ultimately have "delete_loop a1 0 s = None"
    by simp
  then show ?thesis
    by (simp add: newname_def arg_def)
qed

theorem C7_newname_not_found_witness:
  "shell_ok (mk_shell [\<lparr>new_name = ''a'', old_name = ''b''\<rparr>]) \<and>
   ''ll'' \<notin> new_name ` set (table (mk_shell [\<lparr>new_name = ''a'', old_name = ''b''\<rparr>])) \<and>
   newname [''newname'', ''ll''] (mk_shell [\<lparr>new_name = ''a'', old_name = ''b''\<rparr>]) world0 =
     Inr (1, mk_shell [\<lparr>new_name = ''a'', old_name = ''b''\<rparr>],
          eprintf (''Alias not found: '' @ ''ll'' @ nl) world0)"
proof -
  have ok: "shell_ok (mk_shell [\<lparr>new_name = ''a'', old_name = ''b''\<rparr>])"
    by (simp add: shell_ok_def mk_shell_def init_shell_def MAX_ALIASES_def)
  have nf: "''ll'' \<notin> new_name ` set (table (mk_shell [\<lparr>new_name = ''a'', old_name = ''b''\<rparr>]))"
    by (simp add: table_def mk_shell_def init_shell_def MAX_ALIASES_def)
  from ok nf C7_newname_not_found [OF ok nf, of "''newname''" world0] show ?thesis
    by simp
qed

text \<open>
  C1. For a non-empty token sequence \<^verbatim>\<open>lsh_execute\<close> first substitutes: the live
  slots are scanned in order and the first whose \<open>new_name\<close> is \<open>tokens[0]\<close> gives its
  \<open>old_name\<close>, once, with no second resolution; the resulting name is then compared
  with the builtin names, and the launcher gets the tokens only when none is equal.
  So when \<open>tokens[0]\<close> is both an alias and a builtin name, the alias's target is what
  is looked up among the builtins.
\<close>

theorem C1_dispatch_order:
  assumes "shell_ok s"
  shows "lsh_execute tokens s w = dispatch tokens s w \<and>
         (\<forall>t ts target. tokens = t # ts \<and> resolve (table s) t = Some target \<and> t \<in> set builtin_str \<longrightarrow>
            lsh_execute tokens s w =
              (case map_of (zip builtin_str builtin_func) target of
                 Some handler \<Rightarrow> handler (target # ts) s w
               | None \<Rightarrow> lsh_launch (target # ts) s w))"
  using assms by (auto simp: lsh_execute_dispatch dispatch_def)

theorem C1_dispatch_order_witness:
  "shell_ok (mk_shell [\<lparr>new_name = ''exit'', old_name = ''help''\<rparr>]) \<and>
   resolve (table (mk_shell [\<lparr>new_name = ''exit'', old_name = ''help''\<rparr>])) ''exit'' = Some ''help'' \<and>
   ''exit'' \<in> set builtin_str \<and>
   lsh_execute [''exit''] (mk_shell [\<lparr>new_name = ''exit'', old_name = ''help''\<rparr>]) world0 =
     dispatch [''exit''] (mk_shell [\<lparr>new_name = ''exit'', old_name = ''help''\<rparr>]) world0 \<and>
   lsh_execute [''exit''] (mk_shell [\<lparr>new_name = ''exit'', old_name = ''help''\<rparr>]) world0 =
     lsh_help [''help''] (mk_shell [\<lparr>new_name = ''exit'', old_name = ''help''\<rparr>]) world0"
proof -
  let ?s = "mk_shell [\<lparr>new_name = ''exit'', old_name = ''help''\<rparr>]"
  have ok: "shell_ok ?s"
    by (simp add: shell_ok_mk_shell MAX_ALIASES_def)
  have r: "resolve (table ?s) ''exit'' = Some ''help''"
    by (simp add: table_mk_shell resolve_def)
  have b: "''exit'' \<in> set builtin_str"
    by (simp add: builtin_str_def)
  have m: "map_of (zip builtin_str builtin_func) ''help'' = Some lsh_help"
    by (simp add: builtin_str_def builtin_func_def)
  note th = C1_dispatch_order [OF ok, of "[''exit'']" world0]
  from th have e1: "lsh_execute [''exit''] ?s world0 = dispatch [''exit''] ?s world0"
    by (rule conjunct1)
  from th r b have "lsh_execute [''exit''] ?s world0 =
      (case map_of (zip builtin_str builtin_func) ''help'' of
         Some handler \<Rightarrow> handler [''help''] ?s world0
       | None \<Rightarrow> lsh_launch [''help''] ?s world0)"
    by blast
  with m have e2: "lsh_execute [''exit''] ?s world0 = lsh_help [''help''] ?s world0"
    by simp
  from ok r b e1 e2 show ?thesis by (intro conjI)
qed

text \<open>
  C4. Duplicate names are kept and the first defined wins. When the table is
  \<open>pre @ a # post\<close> with \<open>a\<close> the first entry named \<open>n\<close>: the alias loop of dispatch
  yields \<open>a\<close>'s target; \<^verbatim>\<open>newname n\<close> leaves the table \<open>pre @ post\<close>, so exactly
  \<open>a\<close> is removed and the rest keeps its order; and, while there is room,
  \<^verbatim>\<open>newname n target\<close> appends a further entry named \<open>n\<close> and replaces none.
\<close>

theorem C4_duplicates_first_wins:
  assumes "shell_ok s" and "table s = pre @ a # post"
    and "n \<notin> new_name ` set pre" and "new_name a = n"
  shows "alias_loop n (aliases s) (alias_count s) 0 = old_name a \<and>
         (\<exists>s'. newname [a0, n] s w = Inr (1, s', w) \<and> table s' = pre @ post \<and> shell_ok s' \<and>
               shellname s' = shellname s \<and> terminator s' = terminator s) \<and>
         (alias_count s < MAX_ALIASES \<longrightarrow>
            (\<exists>s'. newname [a0, n, target] s w = Inr (1, s', w) \<and>
                  table s' = table s @ [\<lparr>new_name = n, old_name = target\<rparr>]))"
proof (intro conjI impI)
  from assms(1) have le: "alias_count s \<le> length (aliases s)" by (simp add: shell_ok_def)
  from assms(2,3,4) have "resolve (table s) n = Some (old_name a)"
    by (simp add: resolve_def find_first_split)
  with assms(1) show "alias_loop n (aliases s) (alias_count s) 0 = old_name a"
    by (simp add: alias_loop_resolve)
  from assms(2,3,4) have "remove_first n (table s) = Some (pre @ post)"
    by (subst remove_first_Some) blast
  with le have "map_option table (delete_loop n 0 s) = Some (pre @ post)"
    using delete_loop_table [of s 0 n] by simp
  then obtain s' where s': "delete_loop n 0 s = Some s'" "table s' = pre @ post"
    by auto
  from delete_loop_frame [OF s'(1)] assms(1) have "shell_ok s'" "shellname s' = shellname s" "terminator s' = terminator s"
    by (auto simp: shell_ok_def)
  with s' show "\<exists>s'. newname [a0, n] s w = Inr (1, s', w) \<and> table s' = pre @ post \<and> shell_ok s' \<and>
               shellname s' = shellname s \<and> terminator s' = terminator s"
    by (simp add: newname_def arg_def)
next
  assume "alias_count s < MAX_ALIASES"
  with assms(1) show "\<exists>s'. newname [a0, n, target] s w = Inr (1, s', w) \<and>
                  table s' = table s @ [\<lparr>new_name = n, old_name = target\<rparr>]"
    by (simp add: newname_def arg_def table_def shell_ok_def take_Suc_conv_app_nth)
qed


theorem C4_duplicates_first_wins_witness:
  "shell_ok dup_shell \<and>
   table dup_shell = [\<lparr>new_name = ''a'', old_name = ''b''\<rparr>] @ \<lparr>new_name = ''ll'', old_name = ''ls''\<rparr> #
     [\<lparr>new_name = ''c'', old_name = ''d''\<rparr>, \<lparr>new_name = ''ll'', old_name = ''dir''\<rparr>] \<and>
   alias_loop ''ll'' (aliases dup_shell) (alias_count dup_shell) 0 = ''ls'' \<and>
   (\<exists>s'. newname [''newname'', ''ll''] dup_shell world0 = Inr (1, s', world0) \<and>
     table s' = [\<lparr>new_name = ''a'', old_name = ''b''\<rparr>, \<lparr>new_name = ''c'', old_name = ''d''\<rparr>,
       \<lparr>new_name = ''ll'', old_name = ''dir''\<rparr>]) \<and>
   alias_count dup_shell < MAX_ALIASES \<and>
   (\<exists>s'. newname [''newname'', ''ll'', ''x''] dup_shell world0 = Inr (1, s', world0) \<and>
     table s' = table dup_shell @ [\<lparr>new_name = ''ll'', old_name = ''x''\<rparr>])"
proof -
  let ?pre = "[\<lparr>new_name = ''a'', old_name = ''b''\<rparr>]"
  let ?a = "\<lparr>new_name = ''ll'', old_name = ''ls''\<rparr>"
  let ?post = "[\<lparr>new_name = ''c'', old_name = ''d''\<rparr>, \<lparr>new_name = ''ll'', old_name = ''dir''\<rparr>]"
  have ok: "shell_ok dup_shell"
    by (simp add: dup_shell_def shell_ok_mk_shell MAX_ALIASES_def)
  have t: "table dup_shell = ?pre @ ?a # ?post"
    by (simp add: dup_shell_def table_mk_shell)
  have p: "''ll'' \<notin> new_name ` set ?pre" by simp
  have a: "new_name ?a = ''ll''" by simp
  have c: "alias_count dup_shell < MAX_ALIASES"
    by (simp add: dup_shell_def mk_shell_def MAX_ALIASES_def)
  note th = C4_duplicates_first_wins [OF ok t p a, of "''newname''" world0 "''x''"]
  from th have 1: "alias_loop ''ll'' (aliases dup_shell) (alias_count dup_shell) 0 = ''ls''"
    by simp
  from th obtain s1 where 2: "newname [''newname'', ''ll''] dup_shell world0 = Inr (1, s1, world0)"
      "table s1 = ?pre @ ?post"
    by blast
  from th c obtain s2 where 3: "newname [''newname'', ''ll'', ''x''] dup_shell world0 = Inr (1, s2, world0)"
      "table s2 = table dup_shell @ [\<lparr>new_name = ''ll'', old_name = ''x''\<rparr>]"
    by blast
  from 2 have e2: "\<exists>s'. newname [''newname'', ''ll''] dup_shell world0 = Inr (1, s', world0) \<and>
     table s' = [\<lparr>new_name = ''a'', old_name = ''b''\<rparr>, \<lparr>new_name = ''c'', old_name = ''d''\<rparr>,
       \<lparr>new_name = ''ll'', old_name = ''dir''\<rparr>]"
    by simp
  from 3 have e3: "\<exists>s'. newname [''newname'', ''ll'', ''x''] dup_shell world0 = Inr (1, s', world0) \<and>
     table s' = table dup_shell @ [\<lparr>new_name = ''ll'', old_name = ''x''\<rparr>]"
    by blast
  from ok t 1 e2 c e3 show ?thesis
    by (intro conjI)
qed

text \<open>
  C6. A failed launch is never fatal to the interpreter. When \<^verbatim>\<open>fork\<close> fails, and
  when the child's \<^verbatim>\<open>execvp\<close> fails, \<^verbatim>\<open>perror\<close> reports it on the error stream and
  \<^verbatim>\<open>lsh_launch\<close> returns 1. Whatever the command and its arguments, the value the
  launcher returns is 1, with the shell state as it was: it returns once the child has
  exited or was killed by a signal, it waits while the child does neither, and it
  never ends the process. So a command that is neither an alias nor a builtin goes to
  the launcher and never gives the loop the status 0.
\<close>

theorem C6_launch_continue:
  "(spawn w args = ForkFails \<longrightarrow> lsh_launch args s w = Inr (1, s, perror ''lsh'' w)) \<and>
   (spawn w args = ExecFails k \<longrightarrow>
      lsh_launch args s w =
        Inr (1, s, printf (drop (length (out w) - k) (out w)) (perror ''lsh'' w))) \<and>
   (spawn w args = ForkFails \<or> spawn w args = ExecFails k \<longrightarrow>
      (\<exists>w1. lsh_launch args s w = Inr (1, s, w1) \<and> err w1 = err w @ [Perror ''lsh''])) \<and>
   (spawn w args = Runs sts \<longrightarrow>
      lsh_launch args s w =
        (if \<exists>st \<in> set sts. \<not> is_stopped st then Inr (1, s, w) else Inl (Blocked w))) \<and>
   (lsh_launch args s w = Inr (st, s', w') \<longrightarrow> st = 1 \<and> s' = s) \<and>
   (lsh_launch args s w = Inl h \<longrightarrow>
      h = Blocked w \<and> (\<exists>sts. spawn w args = Runs sts \<and> (\<forall>st \<in> set sts. is_stopped st))) \<and>
   (shell_ok s \<and> a0 \<notin> new_name ` set (table s) \<and> a0 \<notin> set builtin_str \<longrightarrow>
      lsh_execute (a0 # rest) s w = lsh_launch (a0 # rest) s w \<and>
      lsh_execute (a0 # rest) s w \<noteq> Inr (0, s', w'))"
proof (intro conjI impI)
  assume "spawn w args = ForkFails"
  then show "lsh_launch args s w = Inr (1, s, perror ''lsh'' w)"
    by (rule launch_fork_fail)
next
  assume "spawn w args = ExecFails k"
  then show "lsh_launch args s w =
      Inr (1, s, printf (drop (length (out w) - k) (out w)) (perror ''lsh'' w))"
    by (rule launch_exec_fail)
next
  assume "spawn w args = ForkFails \<or> spawn w args = ExecFails k"
  then show "\<exists>w1. lsh_launch args s w = Inr (1, s, w1) \<and> err w1 = err w @ [Perror ''lsh'']"
    by (rule launch_fail_report)
next
  assume "spawn w args = Runs sts"
  then show "lsh_launch args s w =
        (if \<exists>st \<in> set sts. \<not> is_stopped st then Inr (1, s, w) else Inl (Blocked w))"
    by (rule launch_runs)
next
  assume r: "lsh_launch args s w = Inr (st, s', w')"
  from launch_Inr [OF r] show "st = 1" "s' = s" by simp_all
next
  assume l: "lsh_launch args s w = Inl h"
  from launch_Inl [OF l] show "h = Blocked w"
    and "\<exists>sts. spawn w args = Runs sts \<and> (\<forall>st \<in> set sts. is_stopped st)"
    by simp_all
next
  assume a: "shell_ok s \<and> a0 \<notin> new_name ` set (table s) \<and> a0 \<notin> set builtin_str"
  then show "lsh_execute (a0 # rest) s w = lsh_launch (a0 # rest) s w"
    by (intro execute_launch) simp_all
  from a show "lsh_execute (a0 # rest) s w \<noteq> Inr (0, s', w')"
    by (intro execute_launch_continue) simp_all
qed

theorem C6_launch_continue_witness:
  "spawn world0 [''nosuchcmd''] = ForkFails \<and>
   lsh_launch [''nosuchcmd''] init_shell world0 = Inr (1, init_shell, perror ''lsh'' world0) \<and>
   spawn world_noexec [''nosuchcmd''] = ExecFails 9 \<and>
   lsh_launch [''nosuchcmd''] init_shell world_noexec =
     Inr (1, init_shell, printf ''myshell> '' (perror ''lsh'' world_noexec)) \<and>
   spawn (world_child [WStopped 19, WExited 0]) [''ls''] = Runs [WStopped 19, WExited 0] \<and>
   lsh_launch [''ls''] init_shell (world_child [WStopped 19, WExited 0]) =
     Inr (1, init_shell, world_child [WStopped 19, WExited 0]) \<and>
   shell_ok init_shell \<and> ''nosuchcmd'' \<notin> new_name ` set (table init_shell) \<and>
   ''nosuchcmd'' \<notin> set builtin_str \<and>
   lsh_execute [''nosuchcmd''] init_shell world0 = lsh_launch [''nosuchcmd''] init_shell world0"
proof -
  have f: "spawn world0 [''nosuchcmd''] = ForkFails"
    by (simp add: world0_def)
  have e: "spawn world_noexec [''nosuchcmd''] = ExecFails 9"
    by (simp add: world_noexec_def)
  have o: "drop (length (out world_noexec) - 9) (out world_noexec) = ''myshell> ''"
    by (simp add: world_noexec_def world0_def)
  have r: "spawn (world_child [WStopped 19, WExited 0]) [''ls''] = Runs [WStopped 19, WExited 0]"
    by (simp add: world_child_def)
  have ok: "shell_ok init_shell"
    by (simp add: shell_ok_def init_shell_def)
  have na: "''nosuchcmd'' \<notin> new_name ` set (table init_shell)"
    by (simp add: table_def init_shell_def)
  have nb: "''nosuchcmd'' \<notin> set builtin_str"
    by (simp add: builtin_str_def)
  note th = C6_launch_continue [where w = world0 and args = "[''nosuchcmd'']" and s = init_shell
      and ?a0.0 = "''nosuchcmd''" and rest = "[]" and s' = init_shell and w' = world0]
  from th [THEN conjunct1] f
  have 1: "lsh_launch [''nosuchcmd''] init_shell world0 = Inr (1, init_shell, perror ''lsh'' world0)"
    by (rule mp)
  from ok na nb have "shell_ok init_shell \<and> ''nosuchcmd'' \<notin> new_name ` set (table init_shell) \<and>
      ''nosuchcmd'' \<notin> set builtin_str"
    by (intro conjI)
  with th [THEN conjunct2, THEN conjunct2, THEN conjunct2, THEN conjunct2, THEN conjunct2, THEN conjunct2]
  have "lsh_execute [''nosuchcmd''] init_shell world0 = lsh_launch [''nosuchcmd''] init_shell world0 \<and>
      lsh_execute [''nosuchcmd''] init_shell world0 \<noteq> Inr (0, init_shell, world0)"
    by (rule mp)
  then have 2: "lsh_execute [''nosuchcmd''] init_shell world0 = lsh_launch [''nosuchcmd''] init_shell world0"
    by (rule conjunct1)
  from C6_launch_continue [where w = world_noexec and args = "[''nosuchcmd'']" and s = init_shell and k = 9,
      THEN conjunct2, THEN conjunct1] e
  have "lsh_launch [''nosuchcmd''] init_shell world_noexec =
      Inr (1, init_shell, printf (drop (length (out world_noexec) - 9) (out world_noexec))
        (perror ''lsh'' world_noexec))"
    by (rule mp)
  then have 3: "lsh_launch [''nosuchcmd''] init_shell world_noexec =
      Inr (1, init_shell, printf ''myshell> '' (perror ''lsh'' world_noexec))"
    by (simp only: o)
  from C6_launch_continue [where w = "world_child [WStopped 19, WExited 0]" and args = "[''ls'']"
      and s = init_shell and sts = "[WStopped 19, WExited 0]",
      THEN conjunct2, THEN conjunct2, THEN conjunct2, THEN conjunct1] r
  have "lsh_launch [''ls''] init_shell (world_child [WStopped 19, WExited 0]) =
      (if \<exists>st \<in> set [WStopped 19, WExited 0]. \<not> is_stopped st
       then Inr (1, init_shell, world_child [WStopped 19, WExited 0])
       else Inl (Blocked (world_child [WStopped 19, WExited 0])))"
    by (rule mp)
  then have 4: "lsh_launch [''ls''] init_shell (world_child [WStopped 19, WExited 0]) =
      Inr (1, init_shell, world_child [WStopped 19, WExited 0])"
    by (simp add: is_stopped_def)
  from f 1 e 3 r 4 ok na nb 2 show ?thesis by (intro conjI)
qed

text \<open>
  C5. The process exits with status 0 on every normal way out. While no checked
  allocation fails, every exit of \<^verbatim>\<open>main\<close> has status 0; \<^verbatim>\<open>exit\<close> and \<^verbatim>\<open>STOP\<close>
  return 0 to the loop, also through dispatch when no alias has taken their name, and
  the loop then returns to \<^verbatim>\<open>main\<close>, which returns \<^verbatim>\<open>EXIT_SUCCESS\<close>; and when the
  input ends before a newline, whatever was typed so far, the process exits with
  status 0 at once: only the prompt has been written, nothing was split or executed.
\<close>

theorem C5_exit_status:
  assumes "allocs_ok w"
  shows "(main inp w = Exit c w' \<longrightarrow> c = 0) \<and>
         lsh_exit args s w = Inr (0, s, w) \<and> lsh_stop args s w = Inr (0, s, w) \<and>
         (shell_ok s \<and> (t = ''exit'' \<or> t = ''STOP'') \<and> t \<notin> new_name ` set (table s) \<longrightarrow>
            lsh_execute (t # rest) s w = Inr (0, s, w)) \<and>
         (lsh_loop inp init_shell w = Inr (s', w') \<longrightarrow> main inp w = Exit 0 w') \<and>
         (CHR 0x0A \<notin> set inp \<longrightarrow>
            (\<exists>w''. lsh_loop inp s w = Inl (Exit 0 w'') \<and>
                   out w'' = out w @ shellname s @ terminator s @ '' '' \<and> err w'' = err w))"
proof (intro conjI impI)
  assume "main inp w = Exit c w'"
  with assms show "c = 0" by (rule main_exit_code)
next
  show "lsh_exit args s w = Inr (0, s, w)" by (simp add: lsh_exit_def)
next
  show "lsh_stop args s w = Inr (0, s, w)" by (simp add: lsh_stop_def)
next
  assume "shell_ok s \<and> (t = ''exit'' \<or> t = ''STOP'') \<and> t \<notin> new_name ` set (table s)"
  then show "lsh_execute (t # rest) s w = Inr (0, s, w)"
    by (intro execute_stop_builtin) simp_all
next
  assume "lsh_loop inp init_shell w = Inr (s', w')"
  then show "main inp w = Exit 0 w'" by (simp add: main_def EXIT_SUCCESS_def)
next
  assume "CHR 0x0A \<notin> set inp"
  with assms lsh_loop_eof [of w inp s]
  show "\<exists>w''. lsh_loop inp s w = Inl (Exit 0 w'') \<and>
          out w'' = out w @ shellname s @ terminator s @ '' '' \<and> err w'' = err w"
    by (simp add: EXIT_SUCCESS_def)
qed

theorem C5_exit_status_witness:
  "allocs_ok world0 \<and> CHR 0x0A \<notin> set ''ls -l'' \<and>
   (\<exists>w''. lsh_loop ''ls -l'' init_shell world0 = Inl (Exit 0 w'') \<and>
          out w'' = out world0 @ shellname init_shell @ terminator init_shell @ '' '' \<and>
          err w'' = err world0) \<and>
   shell_ok init_shell \<and> ''STOP'' \<notin> new_name ` set (table init_shell) \<and>
   lsh_execute [''STOP''] init_shell world0 = Inr (0, init_shell, world0) \<and>
   (case main (''exit'' @ nl @ ''ls'') world0 of
      Exit c w \<Rightarrow> c = 0 \<and> out w = ''myshell> '' \<and> err w = []
    | Blocked w \<Rightarrow> False | Overrun w \<Rightarrow> False)"
proof -
  have a: "allocs_ok world0" by (simp add: allocs_ok_def world0_def)
  have n: "CHR 0x0A \<notin> set ''ls -l''" by simp
  have ok: "shell_ok init_shell" by (simp add: shell_ok_def init_shell_def)
  have na: "''STOP'' \<notin> new_name ` set (table init_shell)" by (simp add: table_def init_shell_def)
  note th = C5_exit_status [OF a, where inp = "''ls -l''" and s = init_shell and t = "''STOP''"
      and rest = "[]" and c = 0 and w' = world0 and s' = init_shell and args = "[]"]
  from th [THEN conjunct2, THEN conjunct2, THEN conjunct2, THEN conjunct2, THEN conjunct2] n
  have 1: "\<exists>w''. lsh_loop ''ls -l'' init_shell world0 = Inl (Exit 0 w'') \<and>
          out w'' = out world0 @ shellname init_shell @ terminator init_shell @ '' '' \<and>
          err w'' = err world0"
    by (rule mp)
  from ok na have "shell_ok init_shell \<and> (''STOP'' = ''exit'' \<or> ''STOP'' = ''STOP'') \<and>
      ''STOP'' \<notin> new_name ` set (table init_shell)" by simp
  with th [THEN conjunct2, THEN conjunct2, THEN conjunct2, THEN conjunct1]
  have 2: "lsh_execute [''STOP''] init_shell world0 = Inr (0, init_shell, world0)"
    by (rule mp)
  have 3: "case main (''exit'' @ nl @ ''ls'') world0 of
      Exit c w \<Rightarrow> c = 0 \<and> out w = ''myshell> '' \<and> err w = []
    | Blocked w \<Rightarrow> False | Overrun w \<Rightarrow> False"
    by code_simp
  from a n 1 ok na 2 3 show ?thesis by (intro conjI)
qed

text \<open>
  C8. The prompt written before each read is the prompt name, the terminator and one
  space: whatever standard output holds when \<^verbatim>\<open>lsh_loop\<close> ends begins with what it
  held before, followed by that prompt. \<^verbatim>\<open>setshellname\<close> and \<^verbatim>\<open>setterminator\<close> set
  their field to the first argument and reset it to "myshell" and ">" when there is
  none. After "setshellname bob" and "setterminator $" the prompt is "bob$ "; the
  whole run of these two lines writes "myshell> bob> bob$ ".
\<close>

theorem C8_prompt:
  "prefix (out w @ shellname s @ terminator s @ '' '') (out (end_world (lsh_loop inp s w))) \<and>
   setshellname (a0 # name # rest) s w = Inr (1, s\<lparr>shellname := name\<rparr>, w) \<and>
   setshellname [a0] s w = Inr (1, s\<lparr>shellname := ''myshell''\<rparr>, w) \<and>
   setterminator (a0 # name # rest) s w = Inr (1, s\<lparr>terminator := name\<rparr>, w) \<and>
   setterminator [a0] s w = Inr (1, s\<lparr>terminator := ''>''\<rparr>, w) \<and>
   lsh_execute [''setshellname'', ''bob''] init_shell w = Inr (1, init_shell\<lparr>shellname := ''bob''\<rparr>, w) \<and>
   lsh_execute [''setterminator'', ''$''] (init_shell\<lparr>shellname := ''bob''\<rparr>) w =
     Inr (1, init_shell\<lparr>shellname := ''bob'', terminator := ''$''\<rparr>, w) \<and>
   shellname (init_shell\<lparr>shellname := ''bob'', terminator := ''$''\<rparr>) @
     terminator (init_shell\<lparr>shellname := ''bob'', terminator := ''$''\<rparr>) @ '' '' = ''bob$ '' \<and>
   out (end_world (lsh_loop (''setshellname bob'' @ nl @ ''setterminator $'' @ nl) init_shell world0)) =
     ''myshell> bob> bob$ ''"
proof (intro conjI)
  show "prefix (out w @ shellname s @ terminator s @ '' '') (out (end_world (lsh_loop inp s w)))"
    by (rule lsh_loop_prompt)
  show "setshellname (a0 # name # rest) s w = Inr (1, s\<lparr>shellname := name\<rparr>, w)"
    by (simp add: setshellname_def arg_def)
  show "setshellname [a0] s w = Inr (1, s\<lparr>shellname := ''myshell''\<rparr>, w)"
    by (simp add: setshellname_def arg_def)
  show "setterminator (a0 # name # rest) s w = Inr (1, s\<lparr>terminator := name\<rparr>, w)"
    by (simp add: setterminator_def arg_def)
  show "setterminator [a0] s w = Inr (1, s\<lparr>terminator := ''>''\<rparr>, w)"
    by (simp add: setterminator_def arg_def)
  have ok: "shell_ok init_shell" "shell_ok (init_shell\<lparr>shellname := ''bob''\<rparr>)"
    by (simp_all add: shell_ok_def init_shell_def)
  have r: "resolve (table init_shell) x = None" "resolve (table (init_shell\<lparr>shellname := ''bob''\<rparr>)) x = None" for x
    by (simp_all add: resolve_def table_def init_shell_def)
  have m: "map_of (zip builtin_str builtin_func) ''setshellname'' = Some setshellname"
    "map_of (zip builtin_str builtin_func) ''setterminator'' = Some setterminator"
    by (simp_all add: builtin_str_def builtin_func_def)
  from ok r m show "lsh_execute [''setshellname'', ''bob''] init_shell w = Inr (1, init_shell\<lparr>shellname := ''bob''\<rparr>, w)"
    by (simp add: lsh_execute_dispatch dispatch_def setshellname_def arg_def)
  from ok r m show "lsh_execute [''setterminator'', ''$''] (init_shell\<lparr>shellname := ''bob''\<rparr>) w =
     Inr (1, init_shell\<lparr>shellname := ''bob'', terminator := ''$''\<rparr>, w)"
    by (simp add: lsh_execute_dispatch dispatch_def setterminator_def arg_def)
  show "shellname (init_shell\<lparr>shellname := ''bob'', terminator := ''$''\<rparr>) @
     terminator (init_shell\<lparr>shellname := ''bob'', terminator := ''$''\<rparr>) @ '' '' = ''bob$ ''"
    by simp
  show "out (end_world (lsh_loop (''setshellname bob'' @ nl @ ''setterminator $'' @ nl) init_shell world0)) =
     ''myshell> bob> bob$ ''"
    by code_simp
qed


theorem C8_prompt_witness:
  "prefix (out world0 @ shellname init_shell @ terminator init_shell @ '' '')
     (out (end_world (lsh_loop (''help'' @ nl) init_shell world0))) \<and>
   setshellname [''setshellname'', ''bob''] init_shell world0 =
     Inr (1, init_shell\<lparr>shellname := ''bob''\<rparr>, world0) \<and>
   setterminator [''setterminator''] init_shell world0 =
     Inr (1, init_shell\<lparr>terminator := ''>''\<rparr>, world0)"
proof -
  note th = C8_prompt [where w = world0 and s = init_shell and inp = "''help'' @ nl"
      and name = "''bob''" and rest = "[]"]
  from th [where ?a0.0 = "''setshellname''"] have 1:
    "prefix (out world0 @ shellname init_shell @ terminator init_shell @ '' '')
       (out (end_world (lsh_loop (''help'' @ nl) init_shell world0)))"
    and 2: "setshellname [''setshellname'', ''bob''] init_shell world0 =
       Inr (1, init_shell\<lparr>shellname := ''bob''\<rparr>, world0)"
    by (rule conjunct1, rule conjunct2 [THEN conjunct1])
  from th [where ?a0.0 = "''setterminator''"] have 3:
    "setterminator [''setterminator''] init_shell world0 =
       Inr (1, init_shell\<lparr>terminator := ''>''\<rparr>, world0)"
    by (rule conjunct2 [THEN conjunct2, THEN conjunct2, THEN conjunct2, THEN conjunct1])
  from 1 2 3 show ?thesis by (intro conjI)
qed

text \<open>
  C2. The table never holds more than \<^verbatim>\<open>MAX_ALIASES\<close> entries. \<^verbatim>\<open>newname\<close> and
  \<^verbatim>\<open>readnewnames\<close>, with any arguments, keep the array at its size and the counter
  within it, so every sequence of definitions and loads from the initial state ends
  with at most \<^verbatim>\<open>MAX_ALIASES\<close> entries. A definition on a full table returns the
  state unchanged and writes "Maximum number of aliases reached." to the error
  stream; below capacity it appends the pair. A load applies the same rule to each
  parsed pair in order, so the table after it is the old table followed by the parsed
  pairs, cut at \<^verbatim>\<open>MAX_ALIASES\<close>.
\<close>

theorem C2_capacity:
  assumes "shell_ok s"
  shows "(newname args s w = Inr (st, s1, w1) \<longrightarrow> shell_ok s1 \<and> length (table s1) \<le> MAX_ALIASES) \<and>
         (readnewnames args s w = Inr (st, s1, w1) \<longrightarrow> shell_ok s1 \<and> length (table s1) \<le> MAX_ALIASES) \<and>
         (run_ops ops init_shell w = Inr (s2, w2) \<longrightarrow> shell_ok s2 \<and> length (table s2) \<le> MAX_ALIASES) \<and>
         (alias_count s = MAX_ALIASES \<longrightarrow>
            newname (a0 # a1 # a2 # rest) s w =
              Inr (1, s, eprintf (''Maximum number of aliases reached.'' @ nl) w)) \<and>
         (alias_count s < MAX_ALIASES \<longrightarrow>
            (\<exists>s'. newname (a0 # a1 # a2 # rest) s w = Inr (1, s', w) \<and>
                  (aliases s', alias_count s') =
                    define_slot (aliases s, alias_count s) \<lparr>new_name = a1, old_name = a2\<rparr> \<and>
                  table s' = table s @ [\<lparr>new_name = a1, old_name = a2\<rparr>])) \<and>
         (files w path = Some content \<and> readnewnames (a0 # path # rest) s w = Inr (st, s1, w1) \<longrightarrow>
            (aliases s1, alias_count s1) =
              foldl define_slot (aliases s, alias_count s) (map mk_alias (pairs_of (scan_tokens content))) \<and>
            table s1 = take MAX_ALIASES (table s @ map mk_alias (pairs_of (scan_tokens content))))"
proof (intro conjI impI)
  assume n: "newname args s w = Inr (st, s1, w1)"
  from newname_ok [OF assms n] show "shell_ok s1" .
  then show "length (table s1) \<le> MAX_ALIASES" by (rule table_length)
next
  assume n: "readnewnames args s w = Inr (st, s1, w1)"
  from readnewnames_ok [OF assms n] show "shell_ok s1" .
  then show "length (table s1) \<le> MAX_ALIASES" by (rule table_length)
next
  assume r: "run_ops ops init_shell w = Inr (s2, w2)"
  from run_ops_ok [OF shell_ok_init r] show "shell_ok s2" .
  then show "length (table s2) \<le> MAX_ALIASES" by (rule table_length)
next
  assume "alias_count s = MAX_ALIASES"
  then show "newname (a0 # a1 # a2 # rest) s w =
      Inr (1, s, eprintf (''Maximum number of aliases reached.'' @ nl) w)"
    by (rule newname_full)
next
  assume "alias_count s < MAX_ALIASES"
  with assms show "\<exists>s'. newname (a0 # a1 # a2 # rest) s w = Inr (1, s', w) \<and>
      (aliases s', alias_count s') =
        define_slot (aliases s, alias_count s) \<lparr>new_name = a1, old_name = a2\<rparr> \<and>
      table s' = table s @ [\<lparr>new_name = a1, old_name = a2\<rparr>]"
    by (simp add: newname_def arg_def define_slot_def table_def shell_ok_def take_Suc_conv_app_nth)
next
  assume a: "files w path = Some content \<and> readnewnames (a0 # path # rest) s w = Inr (st, s1, w1)"
  let ?l = "loaded content (aliases s, alias_count s)"
  from a readnewnames_spec [of w path content a0 rest s]
  have s1: "s1 = s\<lparr>aliases := fst ?l, alias_count := snd ?l\<rparr>"
    by (simp split: if_splits)
  then show "(aliases s1, alias_count s1) =
      foldl define_slot (aliases s, alias_count s) (map mk_alias (pairs_of (scan_tokens content)))"
    by (simp add: loaded_def)
  from assms have "take (snd ?l) (fst ?l) =
      take MAX_ALIASES (take (alias_count s) (aliases s) @ map mk_alias (pairs_of (scan_tokens content)))"
    unfolding loaded_def
    using foldl_define_slot_table [of "(aliases s, alias_count s)" "map mk_alias (pairs_of (scan_tokens content))"]
    by (simp add: shell_ok_def)
  with s1 show "table s1 = take MAX_ALIASES (table s @ map mk_alias (pairs_of (scan_tokens content)))"
    by (simp add: table_def)
qed

theorem C2_capacity_witness:
  "shell_ok full_shell \<and> alias_count full_shell = MAX_ALIASES \<and>
   newname [''newname'', ''x'', ''y''] full_shell world0 =
     Inr (1, full_shell, eprintf (''Maximum number of aliases reached.'' @ nl) world0) \<and>
   length (table full_shell) \<le> MAX_ALIASES \<and>
   (case run_ops (replicate 11 (Define ''x'' ''y'') @ [Load ''f'']) init_shell (world_file (''p q'' @ nl)) of
      Inl h \<Rightarrow> False | Inr (s', w') \<Rightarrow> alias_count s' = 10)"
proof -
  note th = C2_capacity [OF shell_ok_full, where args = "[''newname'', ''x'', ''y'']" and w = world0
      and st = 1 and ?s1.0 = full_shell and ?w1.0 = "eprintf (''Maximum number of aliases reached.'' @ nl) world0"
      and ?a0.0 = "''newname''" and ?a1.0 = "''x''" and ?a2.0 = "''y''" and rest = "[]"]
  from th [THEN conjunct2, THEN conjunct2, THEN conjunct2, THEN conjunct1] alias_count_full
  have 1: "newname [''newname'', ''x'', ''y''] full_shell world0 =
     Inr (1, full_shell, eprintf (''Maximum number of aliases reached.'' @ nl) world0)"
    by (rule mp)
  with th [THEN conjunct1] have "shell_ok full_shell \<and> length (table full_shell) \<le> MAX_ALIASES"
    by (rule mp)
  then have 2: "length (table full_shell) \<le> MAX_ALIASES" by (rule conjunct2)
  have 3: "case run_ops (replicate 11 (Define ''x'' ''y'') @ [Load ''f'']) init_shell (world_file (''p q'' @ nl)) of
      Inl h \<Rightarrow> False | Inr (s', w') \<Rightarrow> alias_count s' = 10"
    by code_simp
  from shell_ok_full alias_count_full 1 2 3 show ?thesis by (intro conjI)
qed



text \<open>
  C3. Round trip of the alias file: \<^verbatim>\<open>savenewnames\<close> writes one line
  "<new_name> <old_name>" per alias in table order, and for a table without white space
  in its names \<^verbatim>\<open>readnewnames\<close> of that file into an empty table should give the same
  pairs in the same order. The code does not do this for a name of 256 bytes, which
  \<^verbatim>\<open>newname\<close> accepts and \<^verbatim>\<open>savenewnames\<close> writes as it is: reading it back,
  \<^verbatim>\<open>fscanf\<close> with \<^verbatim>\<open>"%s %s"\<close> stores 257 bytes, the terminator included, in
  \<^verbatim>\<open>new_name[256]\<close>, past the end of the buffer. The same happens when the three
  commands are typed at the prompt.
\<close>

theorem C3_long_name_overrun:
  "list_all (\<lambda>c. \<not> isspace c) (replicate 256 (CHR ''a'')) \<and> list_all (\<lambda>c. \<not> isspace c) ''ls'' \<and>
   table long_shell = [\<lparr>new_name = replicate 256 (CHR ''a''), old_name = ''ls''\<rparr>] \<and>
   savenewnames [''savenewnames'', ''f''] long_shell world0 =
     Inr (1, long_shell, world_file (replicate 256 (CHR ''a'') @ '' ls'' @ nl)) \<and>
   readnewnames [''readnewnames'', ''f''] init_shell (world_file (replicate 256 (CHR ''a'') @ '' ls'' @ nl)) =
     Inl (Overrun (world_file (replicate 256 (CHR ''a'') @ '' ls'' @ nl))) \<and>
   is_overrun (main (''newname '' @ replicate 256 (CHR ''a'') @ '' ls'' @ nl @
     ''savenewnames f'' @ nl @ ''readnewnames f'' @ nl) world0)"
proof (intro conjI)
  show "is_overrun (main (''newname '' @ replicate 256 (CHR ''a'') @ '' ls'' @ nl @
     ''savenewnames f'' @ nl @ ''readnewnames f'' @ nl) world0)"
    by code_simp
  show "list_all (\<lambda>c. \<not> isspace c) (replicate 256 (CHR ''a''))"
    by (simp add: list_all_iff isspace_def)
  show "list_all (\<lambda>c. \<not> isspace c) ''ls''"
    by (simp add: isspace_def)
  show t: "table long_shell = [\<lparr>new_name = replicate 256 (CHR ''a''), old_name = ''ls''\<rparr>]"
    by (simp add: long_shell_def table_mk_shell)
  have ok: "shell_ok long_shell"
    by (simp add: long_shell_def shell_ok_mk_shell MAX_ALIASES_def)
  have wr: "\<not> wr_denied world0 ''f''" by (simp add: world0_def)
  have w: "world0\<lparr>files := (files world0)(''f'' \<mapsto> saved (table long_shell))\<rparr> =
      world_file (replicate 256 (CHR ''a'') @ '' ls'' @ nl)"
    unfolding t by (simp add: world_file_def saved_def alias_line_def world0_def)
  from savenewnames_saved [OF ok wr, of "''savenewnames''" "[]"]
  show "savenewnames [''savenewnames'', ''f''] long_shell world0 =
     Inr (1, long_shell, world_file (replicate 256 (CHR ''a'') @ '' ls'' @ nl))"
    by (simp only: w)
  have f: "files (world_file (replicate 256 (CHR ''a'') @ '' ls'' @ nl)) ''f'' =
      Some (replicate 256 (CHR ''a'') @ CHR 0x20 # (''ls'' @ nl))"
    by (simp add: world_file_def)
  show "readnewnames [''readnewnames'', ''f''] init_shell (world_file (replicate 256 (CHR ''a'') @ '' ls'' @ nl)) =
     Inl (Overrun (world_file (replicate 256 (CHR ''a'') @ '' ls'' @ nl)))"
    by (rule readnewnames_long_token [OF f]) (simp_all add: NAME_BUF_def isspace_def)
qed

end
